theory Spec2Isabelle
  imports Main
begin

section \<open>Text, character classes\<close>

text \<open>
  The itinerary text is a Python \<open>str\<close>. It is modelled as a \<open>string\<close> whose characters
  stand for the code points below 256. On that range the class \<open>\d\<close> of the \<open>re\<close> module
  is the ten ASCII digits, and the class \<open>\s\<close> (which is also what \<open>str.strip()\<close> removes)
  is the set of code points for which \<open>str.isspace()\<close> holds: 9 to 13, 28 to 31, 32, 133
  and 160.
\<close>

definition is_digit :: "char \<Rightarrow> bool" where
  "is_digit c \<longleftrightarrow> c \<in> set ''0123456789''"

definition is_space :: "char \<Rightarrow> bool" where
  "is_space c \<longleftrightarrow> (of_char c :: nat) \<in> {9, 10, 11, 12, 13, 28, 29, 30, 31, 32, 133, 160}"

datatype cclass =
    CDigit                  \<comment> \<open>\<open>\d\<close>\<close>
  | CSpace                  \<comment> \<open>\<open>\s\<close>\<close>
  | CChar char              \<comment> \<open>a literal character inside a set\<close>
  | CDot                    \<comment> \<open>\<open>.\<close>\<close>
  | CSet "cclass list"      \<comment> \<open>\<open>[...]\<close>\<close>

fun in_class :: "bool \<Rightarrow> cclass \<Rightarrow> char \<Rightarrow> bool" where
  "in_class dotall CDigit c = is_digit c"
| "in_class dotall CSpace c = is_space c"
| "in_class dotall (CChar a) c = (c = a)"
| "in_class dotall CDot c = (dotall \<or> c \<noteq> CHR 0x0A)"
| "in_class dotall (CSet xs) c = (\<exists>x \<in> set xs. in_class dotall x c)"

section \<open>The fragment of Python's \<open>re\<close> used by the converter\<close>

text \<open>
  \<open>re\<close> is a backtracking matcher. A pattern applied at a position yields its possible
  matches in the order in which the engine tries them; the match reported is the first
  one. A greedy repetition tries the longest run first, a lazy one the shortest; a
  lookahead succeeds without consuming; \<open>$\<close> (without \<open>re.MULTILINE\<close>) holds at the end of
  the text and just before a newline that ends the text.
\<close>

datatype regex =
    RLit string             \<comment> \<open>a literal sequence of characters\<close>
  | RPlus cclass            \<comment> \<open>\<open>x+\<close>, greedy\<close>
  | RLazyStar cclass        \<comment> \<open>\<open>x*?\<close>, lazy\<close>
  | RGroup nat regex        \<comment> \<open>\<open>(...)\<close>, capturing group number n\<close>
  | RCat regex regex        \<comment> \<open>concatenation\<close>
  | RAlt regex regex        \<comment> \<open>\<open>a|b\<close>\<close>
  | RAhead regex            \<comment> \<open>\<open>(?=...)\<close>\<close>
  | RDollar                 \<comment> \<open>\<open>$\<close>\<close>

type_synonym groups = "nat \<rightharpoonup> string"

fun match_lit :: "string \<Rightarrow> string \<Rightarrow> string option" where
  "match_lit [] s = Some s"
| "match_lit (a # l) [] = None"
| "match_lit (a # l) (c # s) = (if a = c then match_lit l s else None)"

text \<open>
  \<open>matches dotall r s g\<close>: every way in which \<open>r\<close> matches a prefix of \<open>s\<close>, as the pair of
  the groups captured and the text left, in the engine's order of preference.
\<close>

fun matches :: "bool \<Rightarrow> regex \<Rightarrow> string \<Rightarrow> groups \<Rightarrow> (groups \<times> string) list" where
  "matches dotall (RLit l) s g =
     (case match_lit l s of None \<Rightarrow> [] | Some t \<Rightarrow> [(g, t)])"
| "matches dotall (RPlus c) s g =
     map (\<lambda>k. (g, drop k s)) (rev [1 ..< Suc (length (takeWhile (in_class dotall c) s))])"
| "matches dotall (RLazyStar c) s g =
     map (\<lambda>k. (g, drop k s)) [0 ..< Suc (length (takeWhile (in_class dotall c) s))]"
| "matches dotall (RGroup n r) s g =
     map (\<lambda>(g', t). (g'(n \<mapsto> take (length s - length t) s), t)) (matches dotall r s g)"
| "matches dotall (RCat r1 r2) s g =
     concat (map (\<lambda>(g', t). matches dotall r2 t g') (matches dotall r1 s g))"
| "matches dotall (RAlt r1 r2) s g = matches dotall r1 s g @ matches dotall r2 s g"
| "matches dotall (RAhead r) s g =
     (case matches dotall r s g of [] \<Rightarrow> [] | (g', t) # _ \<Rightarrow> [(g', s)])"
| "matches dotall RDollar s g = (if s = [] \<or> s = [CHR 0x0A] then [(g, s)] else [])"

text \<open>
  One attempt of the scanner at a position. After an empty match the scanner tries the
  same position again and refuses a match that does not advance.
\<close>

definition match_at :: "bool \<Rightarrow> regex \<Rightarrow> bool \<Rightarrow> string \<Rightarrow> (groups \<times> string) option" where
  "match_at dotall r must_advance s =
     find (\<lambda>(g, t). \<not> must_advance \<or> t \<noteq> s) (matches dotall r s Map.empty)"

lemma match_lit_drop: "match_lit l s = Some t \<Longrightarrow> t = drop (length l) s \<and> length l \<le> length s"
  by (induction l s rule: match_lit.induct) (auto split: if_splits)

lemma matches_drop:
  "(g', t) \<in> set (matches dotall r s g) \<Longrightarrow> \<exists>k. k \<le> length s \<and> t = drop k s"
proof (induction r arbitrary: s g g' t)
  case (RLit l)
  then obtain "match_lit l s = Some t" by (auto split: option.splits)
  from match_lit_drop[OF this] show ?case by blast
next
  case (RPlus c)
  then obtain k where "k < Suc (length (takeWhile (in_class dotall c) s))" "t = drop k s"
    by (auto simp del: upt_Suc)
  then have "k \<le> length (takeWhile (in_class dotall c) s)" "t = drop k s"
    by simp_all
  moreover have "length (takeWhile (in_class dotall c) s) \<le> length s"
    by (rule length_takeWhile_le)
  ultimately show ?case by (intro exI[of _ k]) simp
next
  case (RLazyStar c)
  then obtain k where "k < Suc (length (takeWhile (in_class dotall c) s))" "t = drop k s"
    by (auto simp del: upt_Suc)
  then have "k \<le> length (takeWhile (in_class dotall c) s)" "t = drop k s"
    by simp_all
  moreover have "length (takeWhile (in_class dotall c) s) \<le> length s"
    by (rule length_takeWhile_le)
  ultimately show ?case by (intro exI[of _ k]) simp
next
  case (RGroup n r)
  then show ?case by auto
next
  case (RCat r1 r2)
  from RCat.prems obtain g1 t1 where
    a: "(g1, t1) \<in> set (matches dotall r1 s g)" and b: "(g', t) \<in> set (matches dotall r2 t1 g1)"
    by auto
  from RCat.IH(1)[OF a] obtain k where k: "k \<le> length s" "t1 = drop k s" by blast
  from RCat.IH(2)[OF b] obtain j where j: "j \<le> length t1" "t = drop j t1" by blast
  from k j have "k + j \<le> length s \<and> t = drop (k + j) s" by (simp add: add.commute)
  then show ?case by blast
next
  case (RAlt r1 r2)
  then show ?case by auto
next
  case (RAhead r)
  then have "t = s" by (auto split: list.splits)
  then show ?case by (intro exI[of _ 0]) simp
next
  case RDollar
  then have "t = s" by (auto split: if_splits)
  then show ?case by (intro exI[of _ 0]) simp
qed

lemma match_at_shorter:
  assumes "match_at dotall r adv s = Some (g, t)" and "t \<noteq> s"
  shows "length t < length s"
proof -
  from assms(1) have "(g, t) \<in> set (matches dotall r s Map.empty)"
    unfolding match_at_def by (auto simp: find_Some_iff dest: nth_mem)
  then obtain k where k: "k \<le> length s" "t = drop k s" using matches_drop by blast
  have "k \<noteq> 0"
  proof
    assume "k = 0"
    with k(2) assms(2) show False by simp
  qed
  with k show ?thesis by simp
qed

lemma match_at_advance: "match_at dotall r True s = Some (g, t) \<Longrightarrow> t \<noteq> s"
  unfolding match_at_def by (auto simp: find_Some_iff)

text \<open>
  The scanner behind \<open>findall\<close> and \<open>finditer\<close>: matches are searched from left to right
  and do not overlap; the search resumes where the last match ended.
\<close>

function finditer :: "bool \<Rightarrow> regex \<Rightarrow> bool \<Rightarrow> string \<Rightarrow> groups list" where
  "finditer dotall r must_advance s =
     (case match_at dotall r must_advance s of
        Some (g, t) \<Rightarrow> g # finditer dotall r (t = s) t
      | None \<Rightarrow> (case s of [] \<Rightarrow> [] | c # s' \<Rightarrow> finditer dotall r False s'))"
  by pat_completeness auto

termination
proof (relation "measure (\<lambda>(dotall, r, adv, s). 2 * length s + (if adv then 0 else 1))")
  show "wf (measure (\<lambda>(dotall, r, adv, s). 2 * length s + (if adv then 0 else 1)))"
    by simp
next
  fix dotall :: bool and r adv s x2 g t
  assume "match_at dotall r adv s = Some x2" and "(g, t) = x2"
  then have m: "match_at dotall r adv s = Some (g, t)" by simp
  show "((dotall, r, t = s, t), dotall, r, adv, s)
          \<in> measure (\<lambda>(dotall, r, adv, s). 2 * length s + (if adv then 0 else 1))"
  proof (cases "t = s")
    case True
    with m match_at_advance[of dotall r s g t] have "\<not> adv" by (cases adv) auto
    with True show ?thesis by simp
  next
    case False
    with m have "length t < length s" by (rule match_at_shorter)
    with False show ?thesis by simp
  qed
next
  fix dotall :: bool and r :: regex and adv :: bool and s :: string and c s'
  assume "s = c # s'"
  then show "((dotall, r, False, s'), dotall, r, adv, s)
          \<in> measure (\<lambda>(dotall, r, adv, s). 2 * length s + (if adv then 0 else 1))"
    by simp
qed

declare finditer.simps [simp del]

text \<open>
  \<open>findall\<close> for a pattern with two groups returns one pair per match: the text of
  group 1 and the text of group 2, the empty string for a group that took no part.
\<close>

definition group_text :: "groups \<Rightarrow> nat \<Rightarrow> string" where
  "group_text g n = (case g n of None \<Rightarrow> [] | Some x \<Rightarrow> x)"

definition findall :: "bool \<Rightarrow> regex \<Rightarrow> string \<Rightarrow> (string \<times> string) list" where
  "findall dotall r s = map (\<lambda>g. (group_text g 1, group_text g 2)) (finditer dotall r False s)"

section \<open>Integers, dates and the clock\<close>

datatype error = ValueError | OverflowError | UnicodeEncodeError

text \<open>
  \<open>int(s)\<close> on a string of ASCII digits. CPython 3.11 and later refuse a numeral of more
  than \<open>sys.get_int_max_str_digits()\<close> digits (when that limit is not 0 and the numeral has
  more than 640 digits) with ValueError; earlier versions have no limit, which is the
  limit 0. The limit is a setting of the interpreter, so it is a parameter here.
\<close>

definition digit_val :: "char \<Rightarrow> nat" where
  "digit_val c = of_char c - 48"

definition decimal :: "string \<Rightarrow> nat" where
  "decimal s = foldl (\<lambda>a c. 10 * a + digit_val c) 0 s"

definition py_int :: "nat \<Rightarrow> string \<Rightarrow> error + int" where
  "py_int max_str_digits s =
     (if 640 < length s \<and> 0 < max_str_digits \<and> max_str_digits < length s
      then Inl ValueError else Inr (int (decimal s)))"

text \<open>
  \<open>str(n)\<close>, as the f-string of the summary formats the day number. The same limit
  guards this conversion, but the number formatted here has passed the date addition, so
  it has a handful of digits and the conversion cannot raise.
\<close>

definition digit_char :: "nat \<Rightarrow> char" where
  "digit_char d = ''0123456789'' ! d"

fun str_nat :: "nat \<Rightarrow> string" where
  "str_nat n = (if n < 10 then [digit_char n] else str_nat (n div 10) @ [digit_char (n mod 10)])"

definition py_str :: "int \<Rightarrow> string" where
  "py_str i = (if i < 0 then CHR ''-'' # str_nat (nat (- i)) else str_nat (nat i))"

text \<open>
  A \<open>date\<close> is its proleptic Gregorian ordinal (\<open>date.toordinal()\<close>): 1 is 0001-01-01
  and 3652059 is 9999-12-31, the least and the greatest date. A \<open>datetime\<close> is a date and
  a time of day in microseconds. \<open>timedelta(days=d)\<close> raises OverflowError when the
  magnitude of \<open>d\<close> exceeds 999999999, and adding it to a datetime raises OverflowError
  when the date leaves the range.
\<close>

record datetime =
  ordinal :: int
  time_of_day :: nat

definition min_ordinal :: int where "min_ordinal = 1"

definition max_ordinal :: int where "max_ordinal = 3652059"

definition timedelta :: "int \<Rightarrow> error + int" where
  "timedelta d = (if \<bar>d\<bar> > 999999999 then Inl OverflowError else Inr d)"

definition datetime_add :: "datetime \<Rightarrow> int \<Rightarrow> error + datetime" where
  "datetime_add dt d =
     (let n = ordinal dt + d
      in if n < min_ordinal \<or> max_ordinal < n then Inl OverflowError
         else Inr (dt\<lparr>ordinal := n\<rparr>))"

definition date_of :: "datetime \<Rightarrow> int" where
  "date_of dt = ordinal dt"

text \<open>
  The wall clock is the sequence of the readings still to come: \<open>datetime.today()\<close> and
  \<open>datetime.now()\<close> take the first one.
\<close>

type_synonym clock = "nat \<Rightarrow> datetime"

definition now :: "clock \<Rightarrow> datetime \<times> clock" where
  "now clk = (clk 0, \<lambda>i. clk (Suc i))"

section \<open>The calendar generator\<close>

definition strip :: "string \<Rightarrow> string" where
  "strip s = rev (dropWhile is_space (rev (dropWhile is_space s)))"

record event =
  summary :: string
  description :: string
  dtstart :: int
  dtend :: int
  dtstamp :: datetime

record calendar =
  prodid :: string
  version :: string
  components :: "event list"

text \<open>
  \<open>re.compile(r'Day (\d+)[:\s]+(.*?)(?=Day \d+|$)', re.DOTALL)\<close>; \<open>dotall\<close> is the flag the
  pattern is compiled with.
\<close>

definition day_pattern :: regex where
  "day_pattern =
     RCat (RLit ''Day '')
       (RCat (RGroup 1 (RPlus CDigit))
         (RCat (RPlus (CSet [CChar CHR '':'', CSpace]))
           (RCat (RGroup 2 (RLazyStar CDot))
             (RAhead (RAlt (RCat (RLit ''Day '') (RPlus CDigit)) RDollar)))))"

definition dotall :: bool where
  "dotall = True"

text \<open>The body of the loop over the matches, for one match and one reading of the clock.\<close>

definition day_event :: "nat \<Rightarrow> datetime \<Rightarrow> datetime \<Rightarrow> string \<times> string \<Rightarrow> error + event" where
  "day_event max_str_digits start_date stamp m =
     (case m of (day_num, day_content) \<Rightarrow>
        (case py_int max_str_digits day_num of
           Inl e \<Rightarrow> Inl e
         | Inr n \<Rightarrow>
             (case timedelta (n - 1) of
                Inl e \<Rightarrow> Inl e
              | Inr d \<Rightarrow>
                  (case datetime_add start_date d of
                     Inl e \<Rightarrow> Inl e
                   | Inr current_date \<Rightarrow>
                       Inr \<lparr>summary = ''Day '' @ py_str n @ '' Itinerary'',
                            description = strip day_content,
                            dtstart = date_of current_date,
                            dtend = date_of current_date,
                            dtstamp = stamp\<rparr>))))"

fun day_events :: "nat \<Rightarrow> datetime \<Rightarrow> clock \<Rightarrow> (string \<times> string) list \<Rightarrow> error + event list" where
  "day_events max_str_digits start_date clk [] = Inr []"
| "day_events max_str_digits start_date clk (m # days) =
     (case now clk of (stamp, clk') \<Rightarrow>
        (case day_event max_str_digits start_date stamp m of
           Inl e \<Rightarrow> Inl e
         | Inr ev \<Rightarrow>
             (case day_events max_str_digits start_date clk' days of
                Inl e \<Rightarrow> Inl e
              | Inr evs \<Rightarrow> Inr (ev # evs))))"

text \<open>
  \<open>generate_ics_content\<close>. The result is the \<open>Calendar\<close> object that the function hands
  to the \<open>icalendar\<close> library's \<open>to_ical()\<close> for serialisation, or the exception raised on
  the way; the serialiser belongs to that library.
\<close>

definition generate_ics_content ::
  "nat \<Rightarrow> clock \<Rightarrow> string \<Rightarrow> datetime option \<Rightarrow> error + calendar" where
  "generate_ics_content max_str_digits clk plan_text start_date =
     (let cal = \<lparr>prodid = ''-//AI Travel Planner//github.com//'', version = ''2.0'',
                  components = []\<rparr>;
          (start_date, clk) = (case start_date of None \<Rightarrow> now clk | Some d \<Rightarrow> (d, clk));
          days = findall dotall day_pattern plan_text
      in if days = [] then
           (case now clk of (stamp, clk') \<Rightarrow>
              Inr (cal\<lparr>components :=
                    [\<lparr>summary = ''Travel Itinerary'',
                      description = plan_text,
                      dtstart = date_of start_date,
                      dtend = date_of start_date,
                      dtstamp = stamp\<rparr>]\<rparr>))
         else
           (case day_events max_str_digits start_date clk days of
              Inl e \<Rightarrow> Inl e
            | Inr evs \<Rightarrow> Inr (cal\<lparr>components := evs\<rparr>)))"

text \<open>
  What the function returns (its last line, \<open>return cal.to_ical()\<close>): the
  serialisation of that calendar. The serialiser is the \<open>icalendar\<close> library's and is
  not part of the repository, so it is a parameter: \<open>to_ical\<close> gives the document for a
  calendar, or the exception the serialiser raises (UnicodeEncodeError when a text of
  the calendar cannot be encoded, as for a lone surrogate).
\<close>

definition generate_ics_bytes ::
  "(calendar \<Rightarrow> error + 'doc) \<Rightarrow> nat \<Rightarrow> clock \<Rightarrow> string \<Rightarrow> datetime option \<Rightarrow> error + 'doc" where
  "generate_ics_bytes to_ical max_str_digits clk plan_text start_date =
     (case generate_ics_content max_str_digits clk plan_text start_date of
        Inl e \<Rightarrow> Inl e
      | Inr cal \<Rightarrow> to_ical cal)"

section \<open>The day markers, read off the pattern\<close>

text \<open>
  What the pattern matches, stated without the matching engine. A separator is a colon
  or a whitespace character. A day marker stands where the text reads \<open>Day\<close>, one
  space, one or more digits (as many as there are) and one or more separators (as many
  as there are). The content of a marker starts after its separators and stops at the
  first place where the lookahead of the pattern holds: where the text reads \<open>Day\<close>, a
  space and a digit, at the end of the text, or before a newline that ends the text.
\<close>

definition is_sep :: "char \<Rightarrow> bool" where
  "is_sep c \<longleftrightarrow> c = CHR '':'' \<or> is_space c"

definition starts_day :: "string \<Rightarrow> bool" where
  "starts_day s \<longleftrightarrow>
     (case match_lit ''Day '' s of None \<Rightarrow> False
      | Some t \<Rightarrow> (case t of [] \<Rightarrow> False | c # _ \<Rightarrow> is_digit c))"

definition stop_here :: "string \<Rightarrow> bool" where
  "stop_here s \<longleftrightarrow> starts_day s \<or> s = [] \<or> s = [CHR 0x0A]"

fun until_stop :: "string \<Rightarrow> string \<times> string" where
  "until_stop [] = ([], [])"
| "until_stop (c # s) =
     (if stop_here (c # s) then ([], c # s)
      else (case until_stop s of (a, b) \<Rightarrow> (c # a, b)))"

definition marker :: "string \<Rightarrow> (string \<times> string) option" where
  "marker s =
     (case match_lit ''Day '' s of
        None \<Rightarrow> None
      | Some t \<Rightarrow>
          (let u = dropWhile is_digit t
           in if takeWhile is_digit t = [] \<or> takeWhile is_sep u = [] then None
              else Some (takeWhile is_digit t, dropWhile is_sep u)))"

fun tails :: "'a list \<Rightarrow> 'a list list" where
  "tails [] = [[]]"
| "tails (x # xs) = (x # xs) # tails xs"

definition is_marker :: "string \<Rightarrow> bool" where
  "is_marker s \<longleftrightarrow> marker s \<noteq> None"

definition segment :: "string \<Rightarrow> string \<times> string" where
  "segment s = (case marker s of None \<Rightarrow> ([], []) | Some (ds, body) \<Rightarrow> (ds, fst (until_stop body)))"

definition after_segment :: "string \<Rightarrow> string" where
  "after_segment s = (case marker s of None \<Rightarrow> s | Some (ds, body) \<Rightarrow> snd (until_stop body))"

text \<open>
  \<open>markers text\<close> are the places of the text where a day marker stands, each given as the
  text from there on, in the order of the text. \<open>clear p r\<close> says that in the text \<open>p @ r\<close>
  no marker starts inside \<open>p\<close>.
\<close>

definition markers :: "string \<Rightarrow> string list" where
  "markers text = filter is_marker (tails text)"

definition clear :: "string \<Rightarrow> string \<Rightarrow> bool" where
  "clear p r \<longleftrightarrow> (\<forall>k < length p. \<not> is_marker (drop k p @ r))"

section \<open>What the generator is to produce\<close>

text \<open>
  A marker is in range when the conversion of its numeral, the \<open>timedelta\<close> and the
  date addition all succeed. \<open>expected_event\<close> is the event of a marker in range, and
  \<open>stamped\<close> the events of a list of markers, each with its own reading of the clock.
  \<open>start_or_today\<close> is the start date the generator works with, and \<open>outcome\<close> a result
  of the generator without the time stamps of its events.
\<close>

definition calendar_of :: "event list \<Rightarrow> calendar" where
  "calendar_of evs =
     \<lparr>prodid = ''-//AI Travel Planner//github.com//'', version = ''2.0'', components = evs\<rparr>"

definition day_number :: "string \<Rightarrow> int" where
  "day_number m = int (decimal (fst (segment m)))"

definition too_long :: "nat \<Rightarrow> string \<Rightarrow> bool" where
  "too_long max_str_digits m \<longleftrightarrow>
     640 < length (fst (segment m)) \<and> 0 < max_str_digits \<and> max_str_digits < length (fst (segment m))"

definition in_range :: "nat \<Rightarrow> datetime \<Rightarrow> string \<Rightarrow> bool" where
  "in_range max_str_digits start m \<longleftrightarrow>
     \<not> too_long max_str_digits m \<and>
     \<bar>day_number m - 1\<bar> \<le> 999999999 \<and>
     min_ordinal \<le> ordinal start + (day_number m - 1) \<and>
     ordinal start + (day_number m - 1) \<le> max_ordinal"

definition expected_event :: "datetime \<Rightarrow> datetime \<Rightarrow> string \<Rightarrow> event" where
  "expected_event start stamp m =
     \<lparr>summary = ''Day '' @ py_str (day_number m) @ '' Itinerary'',
      description = strip (snd (segment m)),
      dtstart = date_of start + (day_number m - 1),
      dtend = date_of start + (day_number m - 1),
      dtstamp = stamp\<rparr>"

definition range_error :: "nat \<Rightarrow> string \<Rightarrow> error" where
  "range_error max_str_digits m = (if too_long max_str_digits m then ValueError else OverflowError)"

fun stamped :: "datetime \<Rightarrow> clock \<Rightarrow> string list \<Rightarrow> event list" where
  "stamped start clk [] = []"
| "stamped start clk (m # ms) = expected_event start (clk 0) m # stamped start (\<lambda>i. clk (Suc i)) ms"

definition start_or_today :: "clock \<Rightarrow> datetime option \<Rightarrow> datetime" where
  "start_or_today clk start = (case start of None \<Rightarrow> clk 0 | Some d \<Rightarrow> d)"

definition unstamped :: "event \<Rightarrow> string \<times> string \<times> int \<times> int" where
  "unstamped e = (summary e, description e, dtstart e, dtend e)"

definition outcome :: "error + calendar \<Rightarrow> error + string \<times> string \<times> (string \<times> string \<times> int \<times> int) list" where
  "outcome r = map_sum id (\<lambda>cal. (prodid cal, version cal, map unstamped (components cal))) r"

text \<open>
  The calendar the generator builds when no marker is out of range: the single event of
  the whole text when the text has no marker, the events of the markers otherwise.
\<close>

definition built_calendar :: "clock \<Rightarrow> string \<Rightarrow> datetime option \<Rightarrow> calendar" where
  "built_calendar clk text start =
     (let clk' = (case start of None \<Rightarrow> (\<lambda>i. clk (Suc i)) | Some d \<Rightarrow> clk)
      in if markers text = [] then
           calendar_of
             [\<lparr>summary = ''Travel Itinerary'', description = text,
               dtstart = date_of (start_or_today clk start),
               dtend = date_of (start_or_today clk start), dtstamp = clk' 0\<rparr>]
         else calendar_of (stamped (start_or_today clk start) clk' (markers text)))"

section \<open>The parser as the specification words it\<close>

text \<open>
  The content of a marker is everything after
  the marker up to the next marker, or to the end of the text.
\<close>

fun upto_marker :: "string \<Rightarrow> string" where
  "upto_marker [] = []"
| "upto_marker (c # s) = (if is_marker (c # s) then [] else c # upto_marker s)"

definition spec_segment :: "string \<Rightarrow> string \<times> string" where
  "spec_segment m =
     (case marker m of None \<Rightarrow> ([], []) | Some (ds, body) \<Rightarrow> (ds, upto_marker body))"

definition spec_segments :: "string \<Rightarrow> (string \<times> string) list" where
  "spec_segments text = map spec_segment (markers text)"

section \<open>Example inputs\<close>

definition june_1_2024 :: datetime where
  "june_1_2024 = \<lparr>ordinal = 739038, time_of_day = 0\<rparr>"

definition ticking :: clock where
  "ticking = (\<lambda>i. \<lparr>ordinal = 739500, time_of_day = i\<rparr>)"

text \<open>
  Two stand-ins for the serialiser: one that lists the summaries of the events, and one
  that refuses every calendar as the library does a text it cannot encode.
\<close>

definition list_summaries :: "calendar \<Rightarrow> error + string list" where
  "list_summaries cal = Inr (map summary (components cal))"

definition refuse_encoding :: "calendar \<Rightarrow> error + string list" where
  "refuse_encoding cal = Inl UnicodeEncodeError"

section \<open>The engine on the day pattern\<close>

definition first :: "'a list \<Rightarrow> 'a option" where
  "first xs = (case xs of [] \<Rightarrow> None | x # _ \<Rightarrow> Some x)"

lemma first_simps [simp]: "first [] = None" "first (x # xs) = Some x"
  by (simp_all add: first_def)

lemma find_True: "find (\<lambda>x. True) xs = first xs"
  by (cases xs) simp_all

lemma digit_not_sep: "is_digit c \<Longrightarrow> \<not> is_sep c"
  by (auto simp: is_digit_def is_sep_def is_space_def)

lemma in_class_sep [simp]: "in_class d (CSet [CChar CHR '':'', CSpace]) = is_sep"
  by (rule ext) (auto simp: is_sep_def)

lemma in_class_digit [simp]: "in_class d CDigit = is_digit"
  by (rule ext) simp

definition look :: regex where
  "look = RAhead (RAlt (RCat (RLit ''Day '') (RPlus CDigit)) RDollar)"

lemma upt_rev_nonempty: "rev [1 ..< Suc n] = [] \<longleftrightarrow> n = 0"
  by simp

lemma matches_look: "matches d look v g = (if stop_here v then [(g, v)] else [])"
proof -
  define X where "X = matches d (RCat (RLit ''Day '') (RPlus CDigit)) v g"
  have a: "X = [] \<longleftrightarrow> \<not> starts_day v"
    unfolding X_def
    by (auto simp: starts_day_def takeWhile_eq_Nil_iff simp del: upt_Suc match_lit.simps
        split: option.splits list.splits)
  have b: "\<And>g' t. (g', t) \<in> set X \<Longrightarrow> g' = g"
    unfolding X_def by (auto simp del: upt_Suc match_lit.simps split: option.splits)
  have c: "matches d look v g =
      (case X @ (if v = [] \<or> v = [CHR 0x0A] then [(g, v)] else []) of
         [] \<Rightarrow> [] | (g', t) # _ \<Rightarrow> [(g', v)])"
    unfolding X_def look_def by (simp del: matches.simps(1,2,5))
  show ?thesis
  proof (cases X)
    case Nil
    with a show ?thesis unfolding c by (simp add: stop_here_def)
  next
    case (Cons x ys)
    obtain g' t where x: "x = (g', t)" by (cases x)
    have "(g', t) \<in> set X" unfolding Cons x by simp
    then have "g' = g" by (rule b)
    moreover from a Cons have "starts_day v" by auto
    ultimately show ?thesis unfolding c Cons x by (simp add: stop_here_def)
  qed
qed

lemma first_append: "first (xs @ ys) = (case first xs of None \<Rightarrow> first ys | Some x \<Rightarrow> Some x)"
  by (cases xs) simp_all

lemma upt_Suc_shift: "[0 ..< Suc (Suc n)] = 0 # map Suc [0 ..< Suc n]"
  by (simp add: upt_conv_Cons map_Suc_upt del: upt_Suc)

lemma first_stop:
  "first (concat (map (\<lambda>i. if stop_here (drop i v) then [(G (p @ take i v), drop i v)] else [])
            [0 ..< Suc (length v)]))
   = Some (G (p @ fst (until_stop v)), snd (until_stop v))"
proof (induction v arbitrary: p)
  case Nil
  show ?case by (simp add: stop_here_def)
next
  case (Cons c v)
  show ?case
  proof (cases "stop_here (c # v)")
    case True
    then show ?thesis by (simp add: upt_Suc_shift del: upt_Suc)
  next
    case False
    have "first (concat (map (\<lambda>i. if stop_here (drop i (c # v))
              then [(G (p @ take i (c # v)), drop i (c # v))] else []) [0 ..< Suc (length (c # v))]))
      = first (concat (map (\<lambda>i. if stop_here (drop i v)
              then [(G ((p @ [c]) @ take i v), drop i v)] else []) [0 ..< Suc (length v)]))"
      using False by (simp add: upt_Suc_shift comp_def del: upt_Suc cong: if_cong)
    also have "\<dots> = Some (G ((p @ [c]) @ fst (until_stop v)), snd (until_stop v))"
      by (rule Cons.IH)
    finally show ?thesis using False by (simp add: split_beta)
  qed
qed

definition lazy_tail :: regex where
  "lazy_tail = RCat (RGroup 2 (RLazyStar CDot)) look"

lemma matches_lazy_tail:
  "matches True lazy_tail v g =
     concat (map (\<lambda>i. if stop_here (drop i v) then [(g(2 \<mapsto> take i v), drop i v)] else [])
       [0 ..< Suc (length v)])"
proof -
  have tw: "takeWhile (in_class True CDot) v = v"
    by (simp add: takeWhile_eq_all_conv)
  have "map (\<lambda>k. (g(2 \<mapsto> take (length v - (length v - k)) v), drop k v)) [0 ..< Suc (length v)]
      = map (\<lambda>k. (g(2 \<mapsto> take k v), drop k v)) [0 ..< Suc (length v)]"
    by (rule map_cong[OF refl]) (simp del: upt_Suc)
  then have "matches True (RGroup 2 (RLazyStar CDot)) v g
      = map (\<lambda>k. (g(2 \<mapsto> take k v), drop k v)) [0 ..< Suc (length v)]"
    by (simp add: comp_def tw del: upt_Suc)
  then show ?thesis
    unfolding lazy_tail_def
    by (simp add: comp_def matches_look del: upt_Suc matches.simps(3,4))
qed

lemma first_lazy_tail:
  "first (matches True lazy_tail v g) = Some (g(2 \<mapsto> fst (until_stop v)), snd (until_stop v))"
  unfolding matches_lazy_tail using first_stop[of v "\<lambda>x. g(2 \<mapsto> x)" "[]"]
  by (simp del: upt_Suc cong: if_cong)

definition sep_tail :: regex where
  "sep_tail = RCat (RPlus (CSet [CChar CHR '':'', CSpace])) lazy_tail"

definition digit_tail :: regex where
  "digit_tail = RCat (RGroup 1 (RPlus CDigit)) sep_tail"

lemma day_pattern_unfold: "day_pattern = RCat (RLit ''Day '') digit_tail"
  by (simp add: day_pattern_def digit_tail_def sep_tail_def lazy_tail_def look_def)

lemma matches_sep_tail:
  "matches True sep_tail u g =
     concat (map (\<lambda>j. matches True lazy_tail (drop j u) g)
       (rev [1 ..< Suc (length (takeWhile is_sep u))]))"
  unfolding sep_tail_def by (simp add: comp_def del: upt_Suc)

lemma sep_tail_Nil: "takeWhile is_sep u = [] \<Longrightarrow> matches True sep_tail u g = []"
  unfolding matches_sep_tail by simp

lemma first_sep_tail:
  assumes "takeWhile is_sep u \<noteq> []"
  shows "first (matches True sep_tail u g)
    = Some (g(2 \<mapsto> fst (until_stop (dropWhile is_sep u))), snd (until_stop (dropWhile is_sep u)))"
proof -
  from assms obtain m where m: "length (takeWhile is_sep u) = Suc m"
    by (cases "length (takeWhile is_sep u)") auto
  have d: "drop (Suc m) u = dropWhile is_sep u"
    using m by (simp add: dropWhile_eq_drop)
  have "rev [1 ..< Suc (Suc m)] = Suc m # rev [1 ..< Suc m]"
    by simp
  then show ?thesis
    unfolding matches_sep_tail m
    by (simp add: first_append first_lazy_tail d del: upt_Suc)
qed

lemma takeWhile_nth_holds: "k < length (takeWhile P xs) \<Longrightarrow> P (xs ! k)"
  by (metis nth_mem set_takeWhileD takeWhile_nth)

lemma drop_in_digits:
  assumes "k < length (takeWhile is_digit t)"
  shows "takeWhile is_sep (drop k t) = []"
proof -
  have "k < length t"
    using assms length_takeWhile_le[of is_digit t] by simp
  then have "drop k t = t ! k # drop (Suc k) t"
    by (simp add: Cons_nth_drop_Suc)
  moreover have "is_digit (t ! k)"
    using assms by (rule takeWhile_nth_holds)
  ultimately show ?thesis by (simp add: digit_not_sep)
qed

lemma matches_digit_tail:
  "matches True digit_tail t g =
     concat (map (\<lambda>k. matches True sep_tail (drop k t) (g(1 \<mapsto> take k t)))
       (rev [1 ..< Suc (length (takeWhile is_digit t))]))"
proof -
  have "map (\<lambda>k. (g(1 \<mapsto> take (length t - (length t - k)) t), drop k t))
          (rev [1 ..< Suc (length (takeWhile is_digit t))])
      = map (\<lambda>k. (g(1 \<mapsto> take k t), drop k t)) (rev [1 ..< Suc (length (takeWhile is_digit t))])"
  proof (rule map_cong[OF refl])
    fix k assume "k \<in> set (rev [1 ..< Suc (length (takeWhile is_digit t))])"
    then have "k \<le> length t"
      using length_takeWhile_le[of is_digit t] by (simp del: upt_Suc)
    then show "(g(1 \<mapsto> take (length t - (length t - k)) t), drop k t)
       = (g(1 \<mapsto> take k t), drop k t)"
      by simp
  qed
  then have "matches True (RGroup 1 (RPlus CDigit)) t g
      = map (\<lambda>k. (g(1 \<mapsto> take k t), drop k t)) (rev [1 ..< Suc (length (takeWhile is_digit t))])"
    by (simp add: comp_def del: upt_Suc)
  then show ?thesis
    unfolding digit_tail_def
    by (simp add: comp_def del: upt_Suc matches.simps(2,4))
qed

lemma digit_tail_rest_Nil:
  "concat (map (\<lambda>k. matches True sep_tail (drop k t) (g(1 \<mapsto> take k t)))
       (rev [1 ..< length (takeWhile is_digit t)])) = []"
  by (simp add: sep_tail_Nil drop_in_digits del: upt_Suc)

lemma first_digit_tail:
  "first (matches True digit_tail t g) =
     (if takeWhile is_digit t = [] \<or> takeWhile is_sep (dropWhile is_digit t) = [] then None
      else Some ((g(1 \<mapsto> takeWhile is_digit t))
                    (2 \<mapsto> fst (until_stop (dropWhile is_sep (dropWhile is_digit t)))),
                 snd (until_stop (dropWhile is_sep (dropWhile is_digit t)))))"
proof (cases "length (takeWhile is_digit t)")
  case 0
  then show ?thesis unfolding matches_digit_tail by simp
next
  case (Suc n)
  have d: "drop (Suc n) t = dropWhile is_digit t"
    using Suc by (simp add: dropWhile_eq_drop)
  have tk: "take (Suc n) t = takeWhile is_digit t"
    using Suc by (metis takeWhile_eq_take)
  have ne: "takeWhile is_digit t \<noteq> []"
    using Suc by auto
  have r: "rev [1 ..< Suc (Suc n)] = Suc n # rev [1 ..< Suc n]"
    by simp
  have rest: "concat (map (\<lambda>k. matches True sep_tail (drop k t) (g(1 \<mapsto> take k t)))
       (rev [1 ..< Suc n])) = []"
    using digit_tail_rest_Nil[of t g] Suc by simp
  have e: "matches True digit_tail t g
      = matches True sep_tail (dropWhile is_digit t) (g(1 \<mapsto> takeWhile is_digit t))"
    unfolding matches_digit_tail Suc r using rest by (simp add: d tk del: upt_Suc)
  show ?thesis
  proof (cases "takeWhile is_sep (dropWhile is_digit t) = []")
    case True
    then show ?thesis unfolding e by (simp add: sep_tail_Nil)
  next
    case False
    then show ?thesis unfolding e using ne by (simp add: first_sep_tail)
  qed
qed

lemma first_day_pattern:
  "first (matches True day_pattern s Map.empty) =
     (case marker s of
        None \<Rightarrow> None
      | Some (ds, body) \<Rightarrow>
          Some ([1 \<mapsto> ds, 2 \<mapsto> fst (until_stop body)], snd (until_stop body)))"
proof (cases "match_lit ''Day '' s")
  case None
  then show ?thesis
    unfolding day_pattern_unfold by (simp add: marker_def del: match_lit.simps)
next
  case (Some t)
  then have "matches True day_pattern s Map.empty = matches True digit_tail t Map.empty"
    unfolding day_pattern_unfold by (simp del: match_lit.simps)
  then show ?thesis
    using Some by (simp add: first_digit_tail marker_def Let_def del: match_lit.simps)
qed

lemma match_at_day_pattern:
  "match_at True day_pattern False s =
     (if is_marker s
      then Some ([1 \<mapsto> fst (segment s), 2 \<mapsto> snd (segment s)], after_segment s)
      else None)"
  unfolding match_at_def
  by (simp add: case_prod_unfold find_True first_day_pattern is_marker_def segment_def
      after_segment_def split: option.splits)

lemma match_lit_append: "match_lit l s = Some t \<Longrightarrow> s = l @ t"
  by (induction l s rule: match_lit.induct) (auto split: if_splits)

lemma until_stop_append: "fst (until_stop v) @ snd (until_stop v) = v"
  by (induction v) (auto split: prod.splits)

lemma clear_Nil [simp]: "clear [] r"
  by (simp add: clear_def)

lemma clear_Cons: "clear (c # p) r \<longleftrightarrow> \<not> is_marker (c # p @ r) \<and> clear p r"
  unfolding clear_def
proof (intro iffI conjI allI impI)
  assume a: "\<forall>k<length (c # p). \<not> is_marker (drop k (c # p) @ r)"
  from a[rule_format, of 0] show "\<not> is_marker (c # p @ r)" by simp
  fix k assume "k < length p"
  with a[rule_format, of "Suc k"] show "\<not> is_marker (drop k p @ r)" by simp
next
  fix k
  assume a: "\<not> is_marker (c # p @ r) \<and> (\<forall>k<length p. \<not> is_marker (drop k p @ r))"
    and k: "k < length (c # p)"
  show "\<not> is_marker (drop k (c # p) @ r)"
  proof (cases k)
    case 0
    with a show ?thesis by simp
  next
    case (Suc j)
    with a k show ?thesis by simp
  qed
qed

lemma clear_append: "clear p (q @ r) \<Longrightarrow> clear q r \<Longrightarrow> clear (p @ q) r"
  by (induction p) (simp_all add: clear_Cons)

lemma not_D_not_marker: "c \<noteq> CHR ''D'' \<Longrightarrow> \<not> is_marker (c # s)"
  by (simp add: is_marker_def marker_def)

lemma clear_no_D: "\<forall>c \<in> set p. c \<noteq> CHR ''D'' \<Longrightarrow> clear p r"
  by (induction p) (simp_all add: clear_Cons not_D_not_marker)

lemma marker_starts_day: "is_marker s \<Longrightarrow> starts_day s"
  by (auto simp: is_marker_def marker_def starts_day_def Let_def takeWhile_eq_Nil_iff
      split: option.splits list.splits if_splits simp del: match_lit.simps)

lemma clear_until_stop: "clear (fst (until_stop v)) (snd (until_stop v))"
proof (induction v)
  case Nil
  show ?case by simp
next
  case (Cons c v)
  show ?case
  proof (cases "stop_here (c # v)")
    case True
    then show ?thesis by simp
  next
    case False
    then have "\<not> is_marker (c # v)"
      using marker_starts_day stop_here_def by blast
    with False Cons.IH show ?thesis
      by (simp add: split_beta clear_Cons until_stop_append)
  qed
qed

lemma filter_tails_clear: "clear p r \<Longrightarrow> filter is_marker (tails (p @ r)) = filter is_marker (tails r)"
  by (induction p) (simp_all add: clear_Cons)

lemma marker_decompose:
  assumes "marker s = Some (ds, body)"
  shows "\<exists>seps. s = ''Day '' @ ds @ seps @ body \<and> (\<forall>c \<in> set ds. is_digit c) \<and>
           (\<forall>c \<in> set seps. is_sep c)"
proof -
  from assms obtain t where t: "match_lit ''Day '' s = Some t"
    by (auto simp: marker_def split: option.splits simp del: match_lit.simps)
  with assms have ds: "ds = takeWhile is_digit t"
    and body: "body = dropWhile is_sep (dropWhile is_digit t)"
    by (auto simp: marker_def Let_def split: if_splits simp del: match_lit.simps)
  have "s = ''Day '' @ t" using t by (rule match_lit_append)
  also have "t = ds @ dropWhile is_digit t" unfolding ds by simp
  also have "dropWhile is_digit t = takeWhile is_sep (dropWhile is_digit t) @ body"
    unfolding body by simp
  finally have "s = ''Day '' @ ds @ takeWhile is_sep (dropWhile is_digit t) @ body"
    by simp
  moreover have "\<forall>c \<in> set ds. is_digit c"
    unfolding ds by (auto dest: set_takeWhileD)
  moreover have "\<forall>c \<in> set (takeWhile is_sep (dropWhile is_digit t)). is_sep c"
    by (auto dest: set_takeWhileD)
  ultimately show ?thesis by blast
qed

lemma digit_not_D: "is_digit c \<Longrightarrow> c \<noteq> CHR ''D''"
  by (auto simp: is_digit_def)

lemma sep_not_D: "is_sep c \<Longrightarrow> c \<noteq> CHR ''D''"
  by (auto simp: is_sep_def is_space_def)

lemma marker_skip:
  assumes "is_marker s"
  shows "\<exists>p. s = CHR ''D'' # p @ after_segment s \<and> clear p (after_segment s)"
proof -
  from assms obtain ds body where m: "marker s = Some (ds, body)"
    by (auto simp: is_marker_def)
  from marker_decompose[OF m] obtain seps where
    s: "s = ''Day '' @ ds @ seps @ body" and ds: "\<forall>c \<in> set ds. is_digit c"
    and seps: "\<forall>c \<in> set seps. is_sep c"
    by blast
  define a where "a = fst (until_stop body)"
  define r where "r = snd (until_stop body)"
  have r: "after_segment s = r" by (simp add: after_segment_def m r_def)
  have body: "body = a @ r" by (simp add: a_def r_def until_stop_append)
  have "clear (''ay '' @ ds @ seps) (a @ r)"
    using ds seps by (intro clear_no_D) (auto dest: digit_not_D sep_not_D)
  moreover have "clear a r"
    unfolding a_def r_def by (rule clear_until_stop)
  ultimately have "clear ((''ay '' @ ds @ seps) @ a) r"
    by (rule clear_append)
  moreover have "s = CHR ''D'' # ((''ay '' @ ds @ seps) @ a) @ r"
    unfolding s body by simp
  ultimately show ?thesis unfolding r by blast
qed

lemma filter_tails_marker:
  assumes "is_marker s"
  shows "filter is_marker (tails s) = s # filter is_marker (tails (after_segment s))"
proof -
  define r where "r = after_segment s"
  from marker_skip[OF assms] obtain p where
    s: "s = CHR ''D'' # p @ r" and c: "clear p r"
    unfolding r_def by blast
  have "tails s = s # tails (p @ r)"
    by (subst s, subst s) simp
  then have "filter is_marker (tails s) = s # filter is_marker (tails (p @ r))"
    using assms by simp
  then show ?thesis using filter_tails_clear[OF c] by (simp add: r_def)
qed

lemma after_segment_shorter: "is_marker s \<Longrightarrow> length (after_segment s) < length s"
  using marker_skip[of s] by (metis length_Cons length_append less_Suc_eq_le le_add2)

definition seg_groups :: "string \<Rightarrow> groups" where
  "seg_groups u = [1 \<mapsto> fst (segment u), 2 \<mapsto> snd (segment u)]"

lemma finditer_day_pattern:
  "finditer True day_pattern False s = map seg_groups (filter is_marker (tails s))"
proof (induction s rule: length_induct)
  case (1 s)
  show ?case
  proof (cases "is_marker s")
    case True
    have sh: "length (after_segment s) < length s"
      using True by (rule after_segment_shorter)
    then have ne: "after_segment s \<noteq> s" by auto
    have "finditer True day_pattern False s
        = seg_groups s # finditer True day_pattern False (after_segment s)"
      using True ne by (subst finditer.simps) (simp add: match_at_day_pattern seg_groups_def)
    then show ?thesis
      using 1 sh filter_tails_marker[OF True] by simp
  next
    case False
    show ?thesis
    proof (cases s)
      case Nil
      with False show ?thesis
        by (subst finditer.simps) (simp add: match_at_day_pattern)
    next
      case (Cons c s')
      with False 1 show ?thesis
        by (subst finditer.simps) (simp add: match_at_day_pattern)
    qed
  qed
qed

lemma findall_day_pattern:
  "findall True day_pattern s = map segment (filter is_marker (tails s))"
  by (simp add: findall_def finditer_day_pattern group_text_def seg_groups_def comp_def)

section \<open>The generator on the day markers\<close>

lemma day_event_segment:
  "day_event lim start stamp (segment m) =
     (if in_range lim start m then Inr (expected_event start stamp m)
      else Inl (range_error lim m))"
  by (cases "segment m")
    (auto simp: day_event_def py_int_def timedelta_def datetime_add_def Let_def in_range_def
      too_long_def day_number_def expected_event_def range_error_def date_of_def)

lemma day_events_in_range:
  "list_all (in_range lim start) ms \<Longrightarrow>
     day_events lim start clk (map segment ms) = Inr (stamped start clk ms)"
  by (induction ms arbitrary: clk) (simp_all add: now_def day_event_segment)

lemma day_events_out_of_range:
  "\<not> list_all (in_range lim start) ms \<Longrightarrow>
     \<exists>e. day_events lim start clk (map segment ms) = Inl e"
proof (induction ms arbitrary: clk)
  case Nil
  then show ?case by simp
next
  case (Cons m ms)
  show ?case
  proof (cases "in_range lim start m")
    case True
    with Cons.prems have "\<not> list_all (in_range lim start) ms" by simp
    from Cons.IH[OF this, of "\<lambda>i. clk (Suc i)"] True show ?thesis
      by (auto simp: now_def day_event_segment)
  next
    case False
    then show ?thesis by (simp add: now_def day_event_segment)
  qed
qed

lemma stamped_nth:
  "i < length ms \<Longrightarrow> stamped start clk ms ! i = expected_event start (clk i) (ms ! i)"
proof (induction ms arbitrary: clk i)
  case Nil
  then show ?case by simp
next
  case (Cons m ms)
  then show ?case by (cases i) simp_all
qed

lemma length_stamped [simp]: "length (stamped start clk ms) = length ms"
  by (induction ms arbitrary: clk) simp_all

lemma generate_with_markers:
  assumes "markers text \<noteq> []"
  shows "generate_ics_content lim clk text (Some start) =
     (case day_events lim start clk (map segment (markers text)) of
        Inl e \<Rightarrow> Inl e
      | Inr evs \<Rightarrow> Inr (calendar_of evs))"
  using assms
  by (simp add: generate_ics_content_def dotall_def findall_day_pattern markers_def
      calendar_of_def split: sum.splits)

lemma generate_without_markers:
  assumes "markers text = []"
  shows "generate_ics_content lim clk text (Some start) =
     Inr (calendar_of
            [\<lparr>summary = ''Travel Itinerary'', description = text,
              dtstart = date_of start, dtend = date_of start, dtstamp = clk 0\<rparr>])"
  using assms
  by (simp add: generate_ics_content_def dotall_def findall_day_pattern markers_def
      calendar_of_def now_def)

lemma generate_default_start:
  "generate_ics_content lim clk text None =
     generate_ics_content lim (\<lambda>i. clk (Suc i)) text (Some (clk 0))"
  by (simp add: generate_ics_content_def now_def)

section \<open>Evaluation on concrete texts, and further facts\<close>

lemmas marker_eval = markers_def is_marker_def marker_def is_digit_def is_sep_def is_space_def
  segment_def stop_here_def starts_day_def Let_def

lemmas event_eval = in_range_def too_long_def day_number_def decimal_def digit_val_def
  expected_event_def py_str_def digit_char_def strip_def date_of_def min_ordinal_def
  max_ordinal_def calendar_of_def range_error_def june_1_2024_def ticking_def

lemma scenario_a_markers:
  "markers ''Day 1: Arrive and check in.\<newline>Day 2: City tour.''
    = [''Day 1: Arrive and check in.\<newline>Day 2: City tour.'', ''Day 2: City tour.'']"
  by (simp add: marker_eval)

lemma scenario_a:
  "generate_ics_content 0 ticking ''Day 1: Arrive and check in.\<newline>Day 2: City tour.''
      (Some june_1_2024)
   = Inr \<lparr>prodid = ''-//AI Travel Planner//github.com//'', version = ''2.0'',
        components =
          [\<lparr>summary = ''Day 1 Itinerary'', description = ''Arrive and check in.'',
            dtstart = 739038, dtend = 739038,
            dtstamp = \<lparr>ordinal = 739500, time_of_day = 0\<rparr>\<rparr>,
           \<lparr>summary = ''Day 2 Itinerary'', description = ''City tour.'',
            dtstart = 739039, dtend = 739039,
            dtstamp = \<lparr>ordinal = 739500, time_of_day = 1\<rparr>\<rparr>]\<rparr>"
  by (simp add: generate_with_markers scenario_a_markers day_event_segment now_def)
    (simp add: marker_eval event_eval)

lemma starts_day_iff:
  "starts_day s \<longleftrightarrow> (\<exists>d r. s = ''Day '' @ d # r \<and> is_digit d)"
proof
  assume "starts_day s"
  then obtain t where t: "match_lit ''Day '' s = Some t" and "t \<noteq> []" and "is_digit (hd t)"
    by (auto simp: starts_day_def split: option.splits list.splits simp del: match_lit.simps)
  then have "s = ''Day '' @ hd t # tl t \<and> is_digit (hd t)"
    using match_lit_append[OF t] by simp
  then show "\<exists>d r. s = ''Day '' @ d # r \<and> is_digit d" by blast
next
  assume "\<exists>d r. s = ''Day '' @ d # r \<and> is_digit d"
  then show "starts_day s" by (auto simp: starts_day_def)
qed

lemma takeWhile_run:
  assumes "\<forall>c \<in> set xs. P c" and "ys = [] \<or> \<not> P (hd ys)"
  shows "takeWhile P (xs @ ys) = xs \<and> dropWhile P (xs @ ys) = ys"
  using assms
proof (induction xs)
  case Nil
  then show ?case by (cases ys) auto
next
  case (Cons x xs)
  then show ?case by simp
qed

lemma marker_nonempty:
  assumes "marker s = Some (ds, body)"
  shows "\<exists>seps. s = ''Day '' @ ds @ seps @ body \<and> ds \<noteq> [] \<and> (\<forall>c \<in> set ds. is_digit c) \<and>
           seps \<noteq> [] \<and> (\<forall>c \<in> set seps. is_sep c)"
proof -
  from assms obtain t where t: "match_lit ''Day '' s = Some t"
    by (auto simp: marker_def split: option.splits simp del: match_lit.simps)
  define seps where "seps = takeWhile is_sep (dropWhile is_digit t)"
  from assms t have ds: "ds = takeWhile is_digit t"
    and body: "body = dropWhile is_sep (dropWhile is_digit t)"
    and ne: "takeWhile is_digit t \<noteq> []" "seps \<noteq> []"
    unfolding seps_def
    by (simp_all add: marker_def Let_def split: if_splits del: match_lit.simps)
  have "s = ''Day '' @ t" using t by (rule match_lit_append)
  also have "t = ds @ dropWhile is_digit t" unfolding ds by simp
  also have "dropWhile is_digit t = seps @ body"
    unfolding body seps_def by simp
  finally have "s = ''Day '' @ ds @ seps @ body"
    by simp
  moreover have "\<forall>c \<in> set ds. is_digit c"
    unfolding ds by (auto dest: set_takeWhileD)
  moreover have "\<forall>c \<in> set seps. is_sep c"
    unfolding seps_def by (auto dest: set_takeWhileD)
  moreover have "ds \<noteq> []" using ne(1) unfolding ds .
  ultimately show ?thesis using ne(2) by blast
qed

lemma is_marker_iff:
  "is_marker s \<longleftrightarrow>
     (\<exists>ds seps r. s = ''Day '' @ ds @ seps @ r \<and> ds \<noteq> [] \<and> (\<forall>c \<in> set ds. is_digit c)
        \<and> seps \<noteq> [] \<and> (\<forall>c \<in> set seps. is_sep c))"
proof
  assume "is_marker s"
  then obtain ds body where m: "marker s = Some (ds, body)"
    by (auto simp: is_marker_def)
  from marker_nonempty[OF m]
  show "\<exists>ds seps r. s = ''Day '' @ ds @ seps @ r \<and> ds \<noteq> [] \<and> (\<forall>c \<in> set ds. is_digit c)
        \<and> seps \<noteq> [] \<and> (\<forall>c \<in> set seps. is_sep c)"
    by blast
next
  assume "\<exists>ds seps r. s = ''Day '' @ ds @ seps @ r \<and> ds \<noteq> [] \<and> (\<forall>c \<in> set ds. is_digit c)
        \<and> seps \<noteq> [] \<and> (\<forall>c \<in> set seps. is_sep c)"
  then obtain ds seps r where s: "s = ''Day '' @ ds @ seps @ r" and ds: "ds \<noteq> []"
    "\<forall>c \<in> set ds. is_digit c" and seps: "seps \<noteq> []" "\<forall>c \<in> set seps. is_sep c"
    by blast
  have t: "match_lit ''Day '' s = Some (ds @ seps @ r)"
    unfolding s by simp
  have "\<not> is_digit (hd (seps @ r))"
    using seps digit_not_sep by (cases seps) auto
  then have "takeWhile is_digit (ds @ seps @ r) = ds" "dropWhile is_digit (ds @ seps @ r) = seps @ r"
    using takeWhile_run[of ds is_digit "seps @ r"] ds(2) by simp_all
  moreover have "takeWhile is_sep (seps @ r) \<noteq> []"
    using seps by (cases seps) auto
  ultimately show "is_marker s"
    using ds(1) t by (simp add: is_marker_def marker_def Let_def del: match_lit.simps)
qed

lemma until_stop_stops: "stop_here (snd (until_stop v))"
  by (induction v) (auto simp: stop_here_def split: prod.splits)

lemma until_stop_earliest:
  "k < length (fst (until_stop v)) \<Longrightarrow> \<not> stop_here (drop k (fst (until_stop v)) @ snd (until_stop v))"
proof (induction v arbitrary: k)
  case Nil
  then show ?case by simp
next
  case (Cons c v)
  show ?case
  proof (cases "stop_here (c # v)")
    case True
    with Cons.prems show ?thesis by simp
  next
    case False
    show ?thesis
    proof (cases k)
      case 0
      with False show ?thesis by (simp add: split_beta until_stop_append)
    next
      case (Suc j)
      with Cons.prems False have "j < length (fst (until_stop v))"
        by (simp add: split_beta)
      from Cons.IH[OF this] False Suc show ?thesis by (simp add: split_beta)
    qed
  qed
qed

lemma generate_in_range:
  assumes "markers text \<noteq> []" and "list_all (in_range lim start) (markers text)"
  shows "generate_ics_content lim clk text (Some start) =
     Inr (calendar_of (stamped start clk (markers text)))"
  using assms by (simp add: generate_with_markers day_events_in_range)

lemma day_zero_markers:
  "markers ''Day 1: Arrive.\<newline>Day 0: Pack.'' = [''Day 1: Arrive.\<newline>Day 0: Pack.'', ''Day 0: Pack.'']"
  by (simp add: marker_eval)

lemma scenario_c_markers:
  "markers ''Day 1: Museum.\<newline>Day 1: Dinner.'' = [''Day 1: Museum.\<newline>Day 1: Dinner.'', ''Day 1: Dinner.'']"
  by (simp add: marker_eval)

lemma day_event_Inr:
  assumes "day_event lim start stamp m = Inr ev"
  shows "dtend ev = dtstart ev \<and> description ev = strip (snd m) \<and> dtstamp ev = stamp"
  using assms
  by (cases m) (auto simp: day_event_def split: sum.splits)

lemma day_events_Inr:
  assumes "day_events lim start clk ms = Inr evs"
  shows "(\<forall>e \<in> set evs. dtend e = dtstart e) \<and> map description evs = map (\<lambda>m. strip (snd m)) ms"
  using assms
proof (induction ms arbitrary: clk evs)
  case Nil
  then show ?case by simp
next
  case (Cons m ms)
  from Cons.prems obtain ev evs' where
    ev: "day_event lim start (clk 0) m = Inr ev"
    and evs': "day_events lim start (\<lambda>i. clk (Suc i)) ms = Inr evs'"
    and evs: "evs = ev # evs'"
    by (auto simp: now_def split: sum.splits)
  from day_event_Inr[OF ev] Cons.IH[OF evs'] evs show ?case by simp
qed

lemma strip_all_space: "\<forall>c \<in> set s. is_space c \<Longrightarrow> strip s = []"
  by (auto simp: strip_def dropWhile_eq_Nil_conv dest: set_dropWhileD)

lemma strip_infix:
  "\<exists>a b. s = a @ strip s @ b \<and> (\<forall>c \<in> set a. is_space c) \<and> (\<forall>c \<in> set b. is_space c)"
proof -
  define a where "a = takeWhile is_space s"
  define r where "r = rev (dropWhile is_space s)"
  define b where "b = rev (takeWhile is_space r)"
  have "s = a @ dropWhile is_space s" by (simp add: a_def)
  moreover have "dropWhile is_space s = rev r" by (simp add: r_def)
  moreover have "r = takeWhile is_space r @ dropWhile is_space r" by simp
  then have "rev r = rev (dropWhile is_space r) @ b"
    unfolding b_def by (metis rev_append)
  moreover have "strip s = rev (dropWhile is_space r)" by (simp add: strip_def r_def)
  ultimately have "s = a @ strip s @ b" by simp
  moreover have "\<forall>c \<in> set a. is_space c" unfolding a_def by (auto dest: set_takeWhileD)
  moreover have "\<forall>c \<in> set b. is_space c" unfolding b_def by (auto dest: set_takeWhileD)
  ultimately show ?thesis by blast
qed

lemma strip_ends:
  "strip s = [] \<or> (\<not> is_space (hd (strip s)) \<and> \<not> is_space (last (strip s)))"
proof (cases "strip s = []")
  case True
  then show ?thesis by simp
next
  case False
  define t where "t = dropWhile is_space s"
  define u where "u = dropWhile is_space (rev t)"
  have s: "strip s = rev u" by (simp add: strip_def t_def u_def)
  with False have une: "u \<noteq> []" by simp
  then have "\<not> is_space (hd u)" unfolding u_def using hd_dropWhile by blast
  then have l: "\<not> is_space (last (strip s))" using une by (simp add: s last_rev)
  have "rev t = takeWhile is_space (rev t) @ u" by (simp add: u_def)
  then have "t = rev u @ rev (takeWhile is_space (rev t))"
    by (metis rev_append rev_rev_ident)
  then have "hd t = hd (rev u)" using une by (metis hd_append2 rev_is_Nil_conv)
  moreover have "t \<noteq> []" using une u_def by auto
  then have "\<not> is_space (hd t)" unfolding t_def using hd_dropWhile by blast
  ultimately have "\<not> is_space (hd (strip s))" by (simp add: s)
  with l show ?thesis by simp
qed

lemma generate_Inr_markers:
  assumes "generate_ics_content lim clk text start = Inr cal" and "markers text \<noteq> []"
  shows "\<exists>c s. day_events lim s c (map segment (markers text)) = Inr (components cal)"
proof -
  define s where "s = (case start of None \<Rightarrow> clk 0 | Some d \<Rightarrow> d)"
  define c where "c = (case start of None \<Rightarrow> (\<lambda>i. clk (Suc i)) | Some d \<Rightarrow> clk)"
  have "generate_ics_content lim clk text start = generate_ics_content lim c text (Some s)"
    by (cases start) (simp_all add: s_def c_def generate_default_start)
  with assms have "day_events lim s c (map segment (markers text)) = Inr (components cal)"
    by (auto simp: generate_with_markers calendar_of_def split: sum.splits)
  then show ?thesis by blast
qed

lemma blank_day_markers:
  "markers ''Day 1: \<newline>Day 2:  Walk,\<newline>\<newline>then rest. \<newline>''
    = [''Day 1: \<newline>Day 2:  Walk,\<newline>\<newline>then rest. \<newline>'', ''Day 2:  Walk,\<newline>\<newline>then rest. \<newline>'']"
  by (simp add: marker_eval)

lemma blank_day_calendar:
  "generate_ics_content 0 ticking ''Day 1: \<newline>Day 2:  Walk,\<newline>\<newline>then rest. \<newline>'' (Some june_1_2024)
   = Inr \<lparr>prodid = ''-//AI Travel Planner//github.com//'', version = ''2.0'',
        components =
          [\<lparr>summary = ''Day 1 Itinerary'', description = [],
            dtstart = 739038, dtend = 739038,
            dtstamp = \<lparr>ordinal = 739500, time_of_day = 0\<rparr>\<rparr>,
           \<lparr>summary = ''Day 2 Itinerary'', description = ''Walk,\<newline>\<newline>then rest.'',
            dtstart = 739039, dtend = 739039,
            dtstamp = \<lparr>ordinal = 739500, time_of_day = 1\<rparr>\<rparr>]\<rparr>"
  by (simp add: generate_with_markers blank_day_markers day_event_segment now_def)
    (simp add: marker_eval event_eval)

lemma day_event_unstamped:
  "map_sum id unstamped (day_event lim start s1 m) = map_sum id unstamped (day_event lim start s2 m)"
  by (cases m) (simp add: day_event_def unstamped_def split: sum.splits)

lemma day_events_unstamped:
  "map_sum id (map unstamped) (day_events lim start c1 ms)
     = map_sum id (map unstamped) (day_events lim start c2 ms)"
proof (induction ms arbitrary: c1 c2)
  case Nil
  show ?case by simp
next
  case (Cons m ms)
  from day_event_unstamped[of lim start "c1 0" m "c2 0"]
    Cons.IH[of "\<lambda>i. c1 (Suc i)" "\<lambda>i. c2 (Suc i)"]
  show ?case
    by (auto simp: now_def split: sum.splits)
qed

lemma markers_clear: "clear p r \<Longrightarrow> markers (p @ r) = markers r"
  by (simp add: markers_def filter_tails_clear)

lemma day_events_find:
  "day_events lim start clk (map segment ms) =
     (case find (\<lambda>m. \<not> in_range lim start m) ms of
        None \<Rightarrow> Inr (stamped start clk ms)
      | Some m \<Rightarrow> Inl (range_error lim m))"
proof (induction ms arbitrary: clk)
  case Nil
  show ?case by simp
next
  case (Cons m ms)
  show ?case
  proof (cases "in_range lim start m")
    case True
    with Cons.IH[of "\<lambda>i. clk (Suc i)"] show ?thesis
      by (simp add: now_def day_event_segment split: option.splits)
  next
    case False
    then show ?thesis by (simp add: now_def day_event_segment)
  qed
qed

lemma find_None_list_all: "find (\<lambda>m. \<not> P m) ms = None \<longleftrightarrow> list_all P ms"
  by (induction ms) auto

lemma generate_find:
  "generate_ics_content lim clk text start =
     (case find (\<lambda>m. \<not> in_range lim (start_or_today clk start) m) (markers text) of
        None \<Rightarrow> Inr (built_calendar clk text start)
      | Some m \<Rightarrow> Inl (range_error lim m))"
proof -
  define s where "s = start_or_today clk start"
  define c where "c = (case start of None \<Rightarrow> (\<lambda>i. clk (Suc i)) | Some d \<Rightarrow> clk)"
  have g: "generate_ics_content lim clk text start = generate_ics_content lim c text (Some s)"
    by (cases start) (simp_all add: s_def c_def start_or_today_def generate_default_start)
  have b: "built_calendar clk text start =
      (if markers text = [] then
           calendar_of
             [\<lparr>summary = ''Travel Itinerary'', description = text,
               dtstart = date_of s, dtend = date_of s, dtstamp = c 0\<rparr>]
         else calendar_of (stamped s c (markers text)))"
    by (simp add: built_calendar_def s_def c_def Let_def)
  show ?thesis
  proof (cases "markers text = []")
    case True
    then show ?thesis
      unfolding g b s_def[symmetric] by (simp add: generate_without_markers)
  next
    case False
    then show ?thesis
      unfolding g b s_def[symmetric]
      by (simp add: generate_with_markers day_events_find split: option.splits)
  qed
qed

lemma marker_digits:
  assumes "is_marker m"
  shows "fst (segment m) \<noteq> [] \<and> (\<forall>c \<in> set (fst (segment m)). is_digit c)"
proof -
  from assms obtain ds body where m: "marker m = Some (ds, body)"
    by (auto simp: is_marker_def)
  from marker_nonempty[OF m] m show ?thesis
    by (auto simp: segment_def)
qed

lemma minus_no_marker: "\<not> is_marker (''Day -'' @ rest)"
  by (simp add: marker_eval)

section \<open>The claims\<close>

text \<open>
  Throughout, \<open>lim\<close> is the interpreter's limit on the digits of a numeral, \<open>clk\<close> the
  clock, \<open>text\<close> the itinerary text and \<open>start\<close> the start date of the trip.
\<close>

text \<open>
  C1 (as amended). For a text with one or more day markers and a start date: when every
  marker is in range (its numeral is within the interpreter's digit limit and the start
  date plus its day number minus one is a date from 0001-01-01 to 9999-12-31), the
  generator returns a calendar with exactly one event per marker, in the order of the
  markers in the text, the event of a marker with day number \<open>n\<close> having the summary
  \<open>Day n Itinerary\<close> and the start date \<open>start + (n - 1)\<close> days. When some marker is out of
  range the call raises and there is no calendar.
\<close>

theorem one_event_per_marker:
  assumes "markers text \<noteq> []"
  shows "(list_all (in_range lim start) (markers text) \<longrightarrow>
           (\<exists>evs. generate_ics_content lim clk text (Some start) =
                    Inr \<lparr>prodid = ''-//AI Travel Planner//github.com//'', version = ''2.0'',
                         components = evs\<rparr>
              \<and> map summary evs =
                  map (\<lambda>m. ''Day '' @ py_str (day_number m) @ '' Itinerary'') (markers text)
              \<and> map dtstart evs =
                  map (\<lambda>m. date_of start + (day_number m - 1)) (markers text)))
       \<and> (\<not> list_all (in_range lim start) (markers text) \<longrightarrow>
           (\<exists>e. generate_ics_content lim clk text (Some start) = Inl e))"
proof (intro conjI impI)
  assume ok: "list_all (in_range lim start) (markers text)"
  have s: "map summary (stamped start c ms) =
      map (\<lambda>m. ''Day '' @ py_str (day_number m) @ '' Itinerary'') ms" for c ms
    by (induction ms arbitrary: c) (simp_all add: expected_event_def)
  have d: "map dtstart (stamped start c ms) =
      map (\<lambda>m. date_of start + (day_number m - 1)) ms" for c ms
    by (induction ms arbitrary: c) (simp_all add: expected_event_def)
  have "generate_ics_content lim clk text (Some start) =
      Inr (calendar_of (stamped start clk (markers text)))"
    using assms ok by (simp add: generate_with_markers day_events_in_range)
  with s d show "\<exists>evs. generate_ics_content lim clk text (Some start) =
                    Inr \<lparr>prodid = ''-//AI Travel Planner//github.com//'', version = ''2.0'',
                         components = evs\<rparr>
              \<and> map summary evs =
                  map (\<lambda>m. ''Day '' @ py_str (day_number m) @ '' Itinerary'') (markers text)
              \<and> map dtstart evs =
                  map (\<lambda>m. date_of start + (day_number m - 1)) (markers text)"
    by (simp add: calendar_of_def)
next
  assume "\<not> list_all (in_range lim start) (markers text)"
  from day_events_out_of_range[OF this, of clk] assms
  show "\<exists>e. generate_ics_content lim clk text (Some start) = Inl e"
    by (auto simp: generate_with_markers)
qed

text \<open>Scenario A of the specification instantiates the theorem.\<close>

theorem one_event_per_marker_witness:
  "markers ''Day 1: Arrive and check in.\<newline>Day 2: City tour.'' \<noteq> []
   \<and> list_all (in_range 0 june_1_2024)
        (markers ''Day 1: Arrive and check in.\<newline>Day 2: City tour.'')
   \<and> (\<exists>evs. generate_ics_content 0 ticking
               ''Day 1: Arrive and check in.\<newline>Day 2: City tour.'' (Some june_1_2024) =
             Inr \<lparr>prodid = ''-//AI Travel Planner//github.com//'', version = ''2.0'',
                  components = evs\<rparr>
          \<and> map summary evs = [''Day 1 Itinerary'', ''Day 2 Itinerary'']
          \<and> map dtstart evs = [739038, 739039])"
proof -
  have ne: "markers ''Day 1: Arrive and check in.\<newline>Day 2: City tour.'' \<noteq> []"
    by (simp add: scenario_a_markers)
  have ok: "list_all (in_range 0 june_1_2024)
        (markers ''Day 1: Arrive and check in.\<newline>Day 2: City tour.'')"
    unfolding scenario_a_markers by (simp add: marker_eval event_eval)
  from one_event_per_marker[OF ne, of 0 june_1_2024 ticking] ok
  have "\<exists>evs. generate_ics_content 0 ticking
               ''Day 1: Arrive and check in.\<newline>Day 2: City tour.'' (Some june_1_2024) =
             Inr \<lparr>prodid = ''-//AI Travel Planner//github.com//'', version = ''2.0'',
                  components = evs\<rparr>
          \<and> map summary evs =
              map (\<lambda>m. ''Day '' @ py_str (day_number m) @ '' Itinerary'')
                (markers ''Day 1: Arrive and check in.\<newline>Day 2: City tour.'')
          \<and> map dtstart evs =
              map (\<lambda>m. date_of june_1_2024 + (day_number m - 1))
                (markers ''Day 1: Arrive and check in.\<newline>Day 2: City tour.'')"
    by blast
  then have "\<exists>evs. generate_ics_content 0 ticking
               ''Day 1: Arrive and check in.\<newline>Day 2: City tour.'' (Some june_1_2024) =
             Inr \<lparr>prodid = ''-//AI Travel Planner//github.com//'', version = ''2.0'',
                  components = evs\<rparr>
          \<and> map summary evs = [''Day 1 Itinerary'', ''Day 2 Itinerary'']
          \<and> map dtstart evs = [739038, 739039]"
    unfolding scenario_a_markers by (simp add: marker_eval event_eval)
  with ne ok show ?thesis by blast
qed

text \<open>
  The claim as stated, for every text with a marker and every start date, fails: a day
  number can carry the date past 9999-12-31, and then the date addition raises.
\<close>

theorem one_event_per_marker_counterexample:
  "markers ''Day 99999999: x'' = [''Day 99999999: x'']
   \<and> generate_ics_content 0 ticking ''Day 99999999: x'' (Some june_1_2024) = Inl OverflowError"
proof -
  have m: "markers ''Day 99999999: x'' = [''Day 99999999: x'']"
    by (simp add: marker_eval)
  have "generate_ics_content 0 ticking ''Day 99999999: x'' (Some june_1_2024) = Inl OverflowError"
    by (simp add: generate_with_markers m day_event_segment now_def)
      (simp add: marker_eval event_eval)
  with m show ?thesis by simp
qed

text \<open>
  C2. For a text with no day marker and any start date the generator returns a calendar
  with exactly one event: its summary is \<open>Travel Itinerary\<close>, its description is the whole
  text unchanged, and its start and end date are the date of the start date. The absence
  of markers is never an error. Without a start date the date is that of the clock's
  first reading.
\<close>

theorem fallback_single_event:
  assumes "markers text = []"
  shows "generate_ics_content lim clk text (Some start) =
     Inr \<lparr>prodid = ''-//AI Travel Planner//github.com//'', version = ''2.0'',
          components =
            [\<lparr>summary = ''Travel Itinerary'', description = text,
              dtstart = date_of start, dtend = date_of start, dtstamp = clk 0\<rparr>]\<rparr>
   \<and> generate_ics_content lim clk text None =
     Inr \<lparr>prodid = ''-//AI Travel Planner//github.com//'', version = ''2.0'',
          components =
            [\<lparr>summary = ''Travel Itinerary'', description = text,
              dtstart = date_of (clk 0), dtend = date_of (clk 0), dtstamp = clk 1\<rparr>]\<rparr>"
  using assms
  by (simp add: generate_default_start generate_without_markers calendar_of_def)

theorem fallback_single_event_witness:
  "markers ''Just relax, no fixed plan.'' = []
   \<and> generate_ics_content 0 ticking ''Just relax, no fixed plan.'' (Some june_1_2024) =
     Inr \<lparr>prodid = ''-//AI Travel Planner//github.com//'', version = ''2.0'',
          components =
            [\<lparr>summary = ''Travel Itinerary'', description = ''Just relax, no fixed plan.'',
              dtstart = 739038, dtend = 739038,
              dtstamp = \<lparr>ordinal = 739500, time_of_day = 0\<rparr>\<rparr>]\<rparr>"
proof -
  have m: "markers ''Just relax, no fixed plan.'' = []"
    by (simp add: marker_eval)
  from fallback_single_event[OF m, of 0 ticking june_1_2024] m show ?thesis
    by (simp add: event_eval)
qed

text \<open>
  C3 (as amended). The parser recognises as a marker exactly each place where the text
  reads the case-sensitive literal \<open>Day\<close>, one space, one or more digits and one or more
  colons or whitespace characters; all the digits are the day number and all the
  separators are consumed. The content of the day is what follows the separators up to
  the earliest place where the text reads \<open>Day\<close>, a space and a digit (whether or not a
  colon or whitespace follows the digits there, so whether or not that place is a
  marker), or up to the end of the text, or up to a newline that is the last character
  of the text. The content runs across line boundaries and never includes the place
  where it stops.
\<close>

theorem day_marker_parser:
  "findall dotall day_pattern text = map segment (markers text)
   \<and> (\<forall>m. is_marker m \<longleftrightarrow>
        (\<exists>ds seps r. m = ''Day '' @ ds @ seps @ r \<and> ds \<noteq> [] \<and> (\<forall>c \<in> set ds. is_digit c)
           \<and> seps \<noteq> [] \<and> (\<forall>c \<in> set seps. is_sep c)))
   \<and> (\<forall>m ds body. marker m = Some (ds, body) \<longrightarrow>
        fst (segment m) = ds
        \<and> (\<exists>seps. m = ''Day '' @ ds @ seps @ body \<and> (\<forall>c \<in> set seps. is_sep c))
        \<and> (body = [] \<or> \<not> is_sep (hd body))
        \<and> body = snd (segment m) @ after_segment m
        \<and> stop_here (after_segment m)
        \<and> (\<forall>k < length (snd (segment m)).
              \<not> stop_here (drop k (snd (segment m)) @ after_segment m)))
   \<and> (\<forall>s. stop_here s \<longleftrightarrow>
        (\<exists>d r. s = ''Day '' @ d # r \<and> is_digit d) \<or> s = [] \<or> s = [CHR 0x0A])"
proof (intro conjI allI impI)
  show "findall dotall day_pattern text = map segment (markers text)"
    by (simp add: dotall_def findall_day_pattern markers_def)
next
  fix m
  show "is_marker m \<longleftrightarrow>
        (\<exists>ds seps r. m = ''Day '' @ ds @ seps @ r \<and> ds \<noteq> [] \<and> (\<forall>c \<in> set ds. is_digit c)
           \<and> seps \<noteq> [] \<and> (\<forall>c \<in> set seps. is_sep c))"
    by (rule is_marker_iff)
next
  fix s
  show "stop_here s \<longleftrightarrow>
        (\<exists>d r. s = ''Day '' @ d # r \<and> is_digit d) \<or> s = [] \<or> s = [CHR 0x0A]"
    by (simp add: stop_here_def starts_day_iff)
next
  fix m ds body
  assume m: "marker m = Some (ds, body)"
  show "fst (segment m) = ds" using m by (simp add: segment_def)
  from marker_decompose[OF m]
  show "\<exists>seps. m = ''Day '' @ ds @ seps @ body \<and> (\<forall>c \<in> set seps. is_sep c)" by blast
  from m obtain t where "body = dropWhile is_sep t"
    by (auto simp: marker_def Let_def split: option.splits if_splits simp del: match_lit.simps)
  then show "body = [] \<or> \<not> is_sep (hd body)"
    using hd_dropWhile[of is_sep t] by auto
  show "body = snd (segment m) @ after_segment m"
    using m by (simp add: segment_def after_segment_def until_stop_append)
  show "stop_here (after_segment m)"
    using m by (simp add: after_segment_def until_stop_stops)
  fix k assume "k < length (snd (segment m))"
  then show "\<not> stop_here (drop k (snd (segment m)) @ after_segment m)"
    using m until_stop_earliest[of k body] by (simp add: segment_def after_segment_def)
qed

theorem day_marker_parser_witness:
  "findall dotall day_pattern ''intro Day 12 :: x\<newline>\<newline>y Day 3'' = [(''12'', ''x\<newline>\<newline>y '')]"
  using day_marker_parser[of "''intro Day 12 :: x\<newline>\<newline>y Day 3''"]
  by (simp add: marker_eval)

text \<open>
  The claim as stated lets the content run to the next marker. In the text below
  \<open>Day 2.\<close> is no marker, since a full stop follows the digit, yet the content of day 1
  stops in front of it and the rest of the sentence is in no segment.
\<close>

theorem day_marker_parser_counterexample:
  "spec_segments ''Day 1:see Day 2.'' = [(''1'', ''see Day 2.'')]
   \<and> findall dotall day_pattern ''Day 1:see Day 2.'' = [(''1'', ''see '')]"
  by (simp add: dotall_def findall_day_pattern spec_segments_def)
    (simp add: marker_eval spec_segment_def)

text \<open>
  C4 (as amended). In every match the day number is a non-empty string of digits, so it
  is never negative: a minus sign after \<open>Day\<close> and the space prevents the match. For a
  text all of whose markers are in range, every marker with day number 0 has an event
  dated the day before the start date, with no clamping, and every marker with day
  number 1 an event dated the start date. For a start date that is a date (from
  0001-01-01 to 9999-12-31), the body of the loop raises nothing on a marker with day
  number 1 exactly when its numeral is within the digit limit, and on a marker with day
  number 0 exactly when moreover the start date is later than 0001-01-01. When the start
  date is 0001-01-01 and some marker of the text has day number 0, the call raises and
  there is no calendar; the exception is OverflowError when no numeral of the text
  exceeds the digit limit.
\<close>

theorem day_zero_and_one:
  "(\<forall>p \<in> set (findall dotall day_pattern text).
       fst p \<noteq> [] \<and> (\<forall>c \<in> set (fst p). is_digit c)
       \<and> (\<forall>n. py_int lim (fst p) = Inr n \<longrightarrow> 0 \<le> n))
   \<and> (\<forall>rest. \<not> is_marker (''Day -'' @ rest))
   \<and> (markers text \<noteq> [] \<and> list_all (in_range lim start) (markers text) \<longrightarrow>
        (\<exists>evs. generate_ics_content lim clk text (Some start) =
                  Inr \<lparr>prodid = ''-//AI Travel Planner//github.com//'', version = ''2.0'',
                       components = evs\<rparr>
           \<and> length evs = length (markers text)
           \<and> (\<forall>i < length (markers text).
                 (day_number (markers text ! i) = 0 \<longrightarrow>
                    dtstart (evs ! i) = date_of start - 1 \<and> dtstart (evs ! i) < date_of start)
               \<and> (day_number (markers text ! i) = 1 \<longrightarrow> dtstart (evs ! i) = date_of start))))
   \<and> (min_ordinal \<le> ordinal start \<and> ordinal start \<le> max_ordinal \<longrightarrow>
        (\<forall>m stamp. day_number m = 1 \<longrightarrow>
           ((\<exists>ev. day_event lim start stamp (segment m) = Inr ev) \<longleftrightarrow> \<not> too_long lim m))
      \<and> (\<forall>m stamp. day_number m = 0 \<longrightarrow>
           ((\<exists>ev. day_event lim start stamp (segment m) = Inr ev) \<longleftrightarrow>
              \<not> too_long lim m \<and> min_ordinal < ordinal start)))
   \<and> (ordinal start = min_ordinal \<and> (\<exists>m \<in> set (markers text). day_number m = 0) \<longrightarrow>
        (\<exists>e. generate_ics_content lim clk text (Some start) = Inl e
            \<and> ((\<forall>m \<in> set (markers text). \<not> too_long lim m) \<longrightarrow> e = OverflowError)))"
proof -
  have c1: "\<forall>p \<in> set (findall dotall day_pattern text).
       fst p \<noteq> [] \<and> (\<forall>c \<in> set (fst p). is_digit c)
       \<and> (\<forall>n. py_int lim (fst p) = Inr n \<longrightarrow> 0 \<le> n)"
  proof
    fix p assume "p \<in> set (findall dotall day_pattern text)"
    then obtain m where m: "is_marker m" and p: "p = segment m"
      by (auto simp: dotall_def findall_day_pattern)
    have "\<forall>n. py_int lim (fst p) = Inr n \<longrightarrow> 0 \<le> n"
      by (auto simp: py_int_def split: if_splits)
    with marker_digits[OF m] p
    show "fst p \<noteq> [] \<and> (\<forall>c \<in> set (fst p). is_digit c)
       \<and> (\<forall>n. py_int lim (fst p) = Inr n \<longrightarrow> 0 \<le> n)"
      by simp
  qed
  have c2: "\<forall>rest. \<not> is_marker (''Day -'' @ rest)"
    using minus_no_marker by blast
  have c3: "markers text \<noteq> [] \<and> list_all (in_range lim start) (markers text) \<longrightarrow>
        (\<exists>evs. generate_ics_content lim clk text (Some start) =
                  Inr \<lparr>prodid = ''-//AI Travel Planner//github.com//'', version = ''2.0'',
                       components = evs\<rparr>
           \<and> length evs = length (markers text)
           \<and> (\<forall>i < length (markers text).
                 (day_number (markers text ! i) = 0 \<longrightarrow>
                    dtstart (evs ! i) = date_of start - 1 \<and> dtstart (evs ! i) < date_of start)
               \<and> (day_number (markers text ! i) = 1 \<longrightarrow> dtstart (evs ! i) = date_of start)))"
  proof
    assume a: "markers text \<noteq> [] \<and> list_all (in_range lim start) (markers text)"
    then have g: "generate_ics_content lim clk text (Some start) =
        Inr (calendar_of (stamped start clk (markers text)))"
      by (simp add: generate_in_range)
    show "\<exists>evs. generate_ics_content lim clk text (Some start) =
                  Inr \<lparr>prodid = ''-//AI Travel Planner//github.com//'', version = ''2.0'',
                       components = evs\<rparr>
           \<and> length evs = length (markers text)
           \<and> (\<forall>i < length (markers text).
                 (day_number (markers text ! i) = 0 \<longrightarrow>
                    dtstart (evs ! i) = date_of start - 1 \<and> dtstart (evs ! i) < date_of start)
               \<and> (day_number (markers text ! i) = 1 \<longrightarrow> dtstart (evs ! i) = date_of start))"
      unfolding g calendar_of_def
      by (intro exI[of _ "stamped start clk (markers text)"])
        (simp add: stamped_nth expected_event_def)
  qed
  have c4: "min_ordinal \<le> ordinal start \<and> ordinal start \<le> max_ordinal \<longrightarrow>
        (\<forall>m stamp. day_number m = 1 \<longrightarrow>
           ((\<exists>ev. day_event lim start stamp (segment m) = Inr ev) \<longleftrightarrow> \<not> too_long lim m))
      \<and> (\<forall>m stamp. day_number m = 0 \<longrightarrow>
           ((\<exists>ev. day_event lim start stamp (segment m) = Inr ev) \<longleftrightarrow>
              \<not> too_long lim m \<and> min_ordinal < ordinal start))"
    by (auto simp: day_event_segment in_range_def)
  have c5: "ordinal start = min_ordinal \<and> (\<exists>m \<in> set (markers text). day_number m = 0) \<longrightarrow>
        (\<exists>e. generate_ics_content lim clk text (Some start) = Inl e
            \<and> ((\<forall>m \<in> set (markers text). \<not> too_long lim m) \<longrightarrow> e = OverflowError))"
  proof
    assume a: "ordinal start = min_ordinal \<and> (\<exists>m \<in> set (markers text). day_number m = 0)"
    then obtain m where m: "m \<in> set (markers text)" "day_number m = 0" by blast
    with a have "\<not> in_range lim start m" by (simp add: in_range_def)
    with m(1) have "\<not> list_all (in_range lim start) (markers text)"
      by (auto simp: list_all_iff)
    then obtain b where b: "find (\<lambda>m. \<not> in_range lim start m) (markers text) = Some b"
      using find_None_list_all[of "in_range lim start" "markers text"] by auto
    then have bm: "b \<in> set (markers text)"
      by (auto simp: find_Some_iff)
    have "generate_ics_content lim clk text (Some start) = Inl (range_error lim b)"
      using generate_find[of lim clk "text" "Some start"] b by (simp add: start_or_today_def)
    moreover have "(\<forall>m \<in> set (markers text). \<not> too_long lim m) \<longrightarrow> range_error lim b = OverflowError"
      using bm by (auto simp: range_error_def)
    ultimately show "\<exists>e. generate_ics_content lim clk text (Some start) = Inl e
            \<and> ((\<forall>m \<in> set (markers text). \<not> too_long lim m) \<longrightarrow> e = OverflowError)"
      by blast
  qed
  show ?thesis
    by (intro conjI) (fact c1, fact c2, fact c3, fact c4, fact c5)
qed

theorem day_zero_and_one_witness:
  "markers ''Day 1: Arrive.\<newline>Day 0: Pack.'' \<noteq> []
   \<and> list_all (in_range 0 june_1_2024) (markers ''Day 1: Arrive.\<newline>Day 0: Pack.'')
   \<and> (\<exists>evs. generate_ics_content 0 ticking ''Day 1: Arrive.\<newline>Day 0: Pack.'' (Some june_1_2024) =
               Inr \<lparr>prodid = ''-//AI Travel Planner//github.com//'', version = ''2.0'',
                    components = evs\<rparr>
          \<and> length evs = 2 \<and> dtstart (evs ! 0) = 739038 \<and> dtstart (evs ! 1) = 739037)
   \<and> (\<exists>m \<in> set (markers ''Day 2: Rest.\<newline>Day 0: Pack.''). day_number m = 0)
   \<and> generate_ics_content 0 ticking ''Day 2: Rest.\<newline>Day 0: Pack.''
         (Some \<lparr>ordinal = 1, time_of_day = 0\<rparr>) = Inl OverflowError"
proof -
  let ?T = "''Day 1: Arrive.\<newline>Day 0: Pack.''"
  let ?U = "''Day 2: Rest.\<newline>Day 0: Pack.''"
  let ?d = "\<lparr>ordinal = 1, time_of_day = 0\<rparr> :: datetime"
  have ne: "markers ?T \<noteq> []"
    by (simp add: day_zero_markers)
  have ok: "list_all (in_range 0 june_1_2024) (markers ?T)"
    unfolding day_zero_markers by (simp add: marker_eval event_eval)
  have n0: "day_number (markers ?T ! 0) = 1" and n1: "day_number (markers ?T ! 1) = 0"
    unfolding day_zero_markers by (simp_all add: marker_eval event_eval)
  have l: "length (markers ?T) = 2"
    unfolding day_zero_markers by simp
  from day_zero_and_one[of ?T 0 june_1_2024 ticking] ne ok
  obtain evs where g: "generate_ics_content 0 ticking ?T (Some june_1_2024) =
               Inr \<lparr>prodid = ''-//AI Travel Planner//github.com//'', version = ''2.0'',
                    components = evs\<rparr>"
    and len: "length evs = length (markers ?T)"
    and ev: "\<forall>i < length (markers ?T).
                 (day_number (markers ?T ! i) = 0 \<longrightarrow>
                    dtstart (evs ! i) = date_of june_1_2024 - 1
                    \<and> dtstart (evs ! i) < date_of june_1_2024)
               \<and> (day_number (markers ?T ! i) = 1 \<longrightarrow> dtstart (evs ! i) = date_of june_1_2024)"
    by blast
  from ev[rule_format, of 0] ev[rule_format, of 1] n0 n1 l
  have "dtstart (evs ! 0) = 739038" "dtstart (evs ! 1) = 739037"
    by (simp_all add: event_eval)
  with g len l have a: "\<exists>evs. generate_ics_content 0 ticking ?T (Some june_1_2024) =
               Inr \<lparr>prodid = ''-//AI Travel Planner//github.com//'', version = ''2.0'',
                    components = evs\<rparr>
          \<and> length evs = 2 \<and> dtstart (evs ! 0) = 739038 \<and> dtstart (evs ! 1) = 739037"
    by auto
  have mu: "markers ?U = [?U, ''Day 0: Pack.'']"
    by (simp add: marker_eval)
  have z: "\<exists>m \<in> set (markers ?U). day_number m = 0"
    unfolding mu by (simp add: marker_eval event_eval)
  have nl: "\<forall>m \<in> set (markers ?U). \<not> too_long 0 m"
    by (simp add: too_long_def)
  have o: "ordinal ?d = min_ordinal"
    by (simp add: min_ordinal_def)
  from day_zero_and_one[of ?U 0 ?d ticking] o z nl
  have "generate_ics_content 0 ticking ?U (Some ?d) = Inl OverflowError"
    by blast
  with ne ok a z show ?thesis by blast
qed

text \<open>
  The claim as stated promises no error for day number 0 at every start date; at the
  least date the day before does not exist.
\<close>

theorem day_zero_and_one_counterexample:
  "markers ''Day 0: Pack.'' = [''Day 0: Pack.''] \<and> day_number ''Day 0: Pack.'' = 0
   \<and> generate_ics_content 0 ticking ''Day 0: Pack.'' (Some \<lparr>ordinal = 1, time_of_day = 0\<rparr>)
       = Inl OverflowError"
proof -
  have m: "markers ''Day 0: Pack.'' = [''Day 0: Pack.'']"
    by (simp add: marker_eval)
  have "generate_ics_content 0 ticking ''Day 0: Pack.'' (Some \<lparr>ordinal = 1, time_of_day = 0\<rparr>)
       = Inl OverflowError"
    by (simp add: generate_with_markers m day_event_segment now_def)
      (simp add: marker_eval event_eval)
  moreover have "day_number ''Day 0: Pack.'' = 0"
    by (simp add: marker_eval event_eval)
  ultimately show ?thesis using m by simp
qed

text \<open>
  C5 (as amended). When two markers of a text carry the same day number and every marker
  of the text is in range, the calendar has one event per marker, so one for each of the
  two occurrences, each with the description of its own segment, and both are dated the
  same date. Nothing is merged or dropped. When a marker is out of range the call
  raises, as in C1.
\<close>

theorem duplicate_day_numbers:
  assumes "list_all (in_range lim start) (markers text)"
      and "i < j" and "j < length (markers text)"
      and "day_number (markers text ! i) = day_number (markers text ! j)"
  shows "\<exists>evs. generate_ics_content lim clk text (Some start) =
                  Inr \<lparr>prodid = ''-//AI Travel Planner//github.com//'', version = ''2.0'',
                       components = evs\<rparr>
            \<and> length evs = length (markers text)
            \<and> dtstart (evs ! i) = dtstart (evs ! j)
            \<and> dtstart (evs ! i) = date_of start + (day_number (markers text ! i) - 1)
            \<and> description (evs ! i) = strip (snd (segment (markers text ! i)))
            \<and> description (evs ! j) = strip (snd (segment (markers text ! j)))"
proof -
  from assms(2,3) have ne: "markers text \<noteq> []" and i: "i < length (markers text)"
    by auto
  have g: "generate_ics_content lim clk text (Some start) =
      Inr (calendar_of (stamped start clk (markers text)))"
    using ne assms(1) by (rule generate_in_range)
  have ei: "stamped start clk (markers text) ! i = expected_event start (clk i) (markers text ! i)"
    using i by (rule stamped_nth)
  have ej: "stamped start clk (markers text) ! j = expected_event start (clk j) (markers text ! j)"
    using assms(3) by (rule stamped_nth)
  show ?thesis
    unfolding g calendar_of_def
    by (intro exI[of _ "stamped start clk (markers text)"])
      (simp add: ei ej expected_event_def assms(4))
qed

text \<open>Scenario C of the specification instantiates the theorem.\<close>

theorem duplicate_day_numbers_witness:
  "list_all (in_range 0 june_1_2024) (markers ''Day 1: Museum.\<newline>Day 1: Dinner.'')
   \<and> (\<exists>evs. generate_ics_content 0 ticking ''Day 1: Museum.\<newline>Day 1: Dinner.'' (Some june_1_2024) =
                  Inr \<lparr>prodid = ''-//AI Travel Planner//github.com//'', version = ''2.0'',
                       components = evs\<rparr>
            \<and> length evs = 2
            \<and> dtstart (evs ! 0) = 739038 \<and> dtstart (evs ! 1) = 739038
            \<and> description (evs ! 0) = ''Museum.''
            \<and> description (evs ! 1) = ''Dinner.'')"
proof -
  have ok: "list_all (in_range 0 june_1_2024) (markers ''Day 1: Museum.\<newline>Day 1: Dinner.'')"
    unfolding scenario_c_markers by (simp add: marker_eval event_eval)
  have l: "(1::nat) < length (markers ''Day 1: Museum.\<newline>Day 1: Dinner.'')"
    unfolding scenario_c_markers by simp
  have d: "day_number (markers ''Day 1: Museum.\<newline>Day 1: Dinner.'' ! 0)
      = day_number (markers ''Day 1: Museum.\<newline>Day 1: Dinner.'' ! 1)"
    unfolding scenario_c_markers by (simp add: marker_eval event_eval)
  have "\<exists>evs. generate_ics_content 0 ticking ''Day 1: Museum.\<newline>Day 1: Dinner.'' (Some june_1_2024) =
                  Inr \<lparr>prodid = ''-//AI Travel Planner//github.com//'', version = ''2.0'',
                       components = evs\<rparr>
            \<and> length evs = 2
            \<and> dtstart (evs ! 0) = 739038 \<and> dtstart (evs ! 1) = 739038
            \<and> description (evs ! 0) = ''Museum.''
            \<and> description (evs ! 1) = ''Dinner.''"
    using duplicate_day_numbers[OF ok _ l d, of ticking]
    unfolding scenario_c_markers by (auto simp: marker_eval event_eval)
  with ok show ?thesis by blast
qed

text \<open>
  The claim as stated, for every text with a repeated day number, fails where the date of
  that day number does not exist: the call raises and there is no event at all.
\<close>

theorem duplicate_day_numbers_counterexample:
  "markers ''Day 5000000: a Day 5000000: b'' = [''Day 5000000: a Day 5000000: b'', ''Day 5000000: b'']
   \<and> day_number ''Day 5000000: a Day 5000000: b'' = day_number ''Day 5000000: b''
   \<and> generate_ics_content 0 ticking ''Day 5000000: a Day 5000000: b'' (Some june_1_2024)
       = Inl OverflowError"
proof -
  have m: "markers ''Day 5000000: a Day 5000000: b''
      = [''Day 5000000: a Day 5000000: b'', ''Day 5000000: b'']"
    by (simp add: marker_eval)
  have "generate_ics_content 0 ticking ''Day 5000000: a Day 5000000: b'' (Some june_1_2024)
       = Inl OverflowError"
    by (simp add: generate_with_markers m day_event_segment now_def)
      (simp add: marker_eval event_eval)
  moreover have "day_number ''Day 5000000: a Day 5000000: b'' = day_number ''Day 5000000: b''"
    by (simp add: marker_eval event_eval)
  ultimately show ?thesis using m by simp
qed

text \<open>
  C6. Whenever the generator returns a calendar for a text with markers, the
  descriptions of its events are, in order, the contents of the markers' segments with
  the leading and the trailing whitespace removed: the description is a part of the
  content, what is cut off in front and behind is whitespace only, the description
  neither starts nor ends with whitespace, and what lies between is kept as it is, blank
  lines included. A content of whitespace only gives the empty description.
\<close>

theorem description_is_stripped_segment:
  assumes "generate_ics_content lim clk text start = Inr cal" and "markers text \<noteq> []"
  shows "map description (components cal) = map (\<lambda>m. strip (snd (segment m))) (markers text)
     \<and> (\<forall>m \<in> set (markers text).
          (\<exists>a b. snd (segment m) = a @ strip (snd (segment m)) @ b
                 \<and> (\<forall>c \<in> set a. is_space c) \<and> (\<forall>c \<in> set b. is_space c))
          \<and> (strip (snd (segment m)) = [] \<or>
               (\<not> is_space (hd (strip (snd (segment m))))
                \<and> \<not> is_space (last (strip (snd (segment m))))))
          \<and> ((\<forall>c \<in> set (snd (segment m)). is_space c) \<longrightarrow> strip (snd (segment m)) = []))"
proof -
  from generate_Inr_markers[OF assms] obtain c s where
    "day_events lim s c (map segment (markers text)) = Inr (components cal)"
    by blast
  from day_events_Inr[OF this]
  have "map description (components cal) = map (\<lambda>m. strip (snd (segment m))) (markers text)"
    by (simp add: comp_def)
  then show ?thesis
    using strip_infix strip_ends strip_all_space by blast
qed

text \<open>
  A text whose first day has no content and whose second day has a blank line inside and
  whitespace around.
\<close>

theorem description_is_stripped_segment_witness:
  "markers ''Day 1: \<newline>Day 2:  Walk,\<newline>\<newline>then rest. \<newline>'' \<noteq> []
   \<and> (\<exists>cal. generate_ics_content 0 ticking ''Day 1: \<newline>Day 2:  Walk,\<newline>\<newline>then rest. \<newline>''
               (Some june_1_2024) = Inr cal
          \<and> map description (components cal) = [[], ''Walk,\<newline>\<newline>then rest.''])"
proof -
  have ne: "markers ''Day 1: \<newline>Day 2:  Walk,\<newline>\<newline>then rest. \<newline>'' \<noteq> []"
    by (simp add: blank_day_markers)
  from description_is_stripped_segment[OF blank_day_calendar ne]
  have "map description (components \<lparr>prodid = ''-//AI Travel Planner//github.com//'', version = ''2.0'',
        components =
          [\<lparr>summary = ''Day 1 Itinerary'', description = [],
            dtstart = 739038, dtend = 739038,
            dtstamp = \<lparr>ordinal = 739500, time_of_day = 0\<rparr>\<rparr>,
           \<lparr>summary = ''Day 2 Itinerary'', description = ''Walk,\<newline>\<newline>then rest.'',
            dtstart = 739039, dtend = 739039,
            dtstamp = \<lparr>ordinal = 739500, time_of_day = 1\<rparr>\<rparr>]\<rparr>)
     = map (\<lambda>m. strip (snd (segment m))) (markers ''Day 1: \<newline>Day 2:  Walk,\<newline>\<newline>then rest. \<newline>'')"
    by blast
  then have "map (\<lambda>m. strip (snd (segment m))) (markers ''Day 1: \<newline>Day 2:  Walk,\<newline>\<newline>then rest. \<newline>'')
      = [[], ''Walk,\<newline>\<newline>then rest.'']"
    by simp
  with blank_day_calendar ne show ?thesis by simp
qed

text \<open>
  C7. In every calendar the generator returns, with or without markers in the text and
  with or without a start date, every event has its end date equal to its start date.
\<close>

theorem end_date_is_start_date:
  assumes "generate_ics_content lim clk text start = Inr cal"
  shows "\<forall>e \<in> set (components cal). dtend e = dtstart e"
proof (cases "markers text = []")
  case True
  show ?thesis
  proof (cases start)
    case None
    with assms True show ?thesis
      by (auto simp: generate_default_start generate_without_markers calendar_of_def)
  next
    case (Some d)
    with assms True show ?thesis
      by (auto simp: generate_without_markers calendar_of_def)
  qed
next
  case False
  from generate_Inr_markers[OF assms False] obtain c s where
    "day_events lim s c (map segment (markers text)) = Inr (components cal)"
    by blast
  from day_events_Inr[OF this] show ?thesis by blast
qed

theorem end_date_is_start_date_witness:
  "\<exists>cal. generate_ics_content 0 ticking ''Day 3: Hike.\<newline>Day 1: Arrive.'' None = Inr cal
      \<and> map dtend (components cal) = map dtstart (components cal)
      \<and> map dtstart (components cal) = [739502, 739500]"
proof -
  have m: "markers ''Day 3: Hike.\<newline>Day 1: Arrive.'' = [''Day 3: Hike.\<newline>Day 1: Arrive.'', ''Day 1: Arrive.'']"
    by (simp add: marker_eval)
  have g: "generate_ics_content 0 ticking ''Day 3: Hike.\<newline>Day 1: Arrive.'' None
     = Inr \<lparr>prodid = ''-//AI Travel Planner//github.com//'', version = ''2.0'',
        components =
          [\<lparr>summary = ''Day 3 Itinerary'', description = ''Hike.'',
            dtstart = 739502, dtend = 739502,
            dtstamp = \<lparr>ordinal = 739500, time_of_day = 1\<rparr>\<rparr>,
           \<lparr>summary = ''Day 1 Itinerary'', description = ''Arrive.'',
            dtstart = 739500, dtend = 739500,
            dtstamp = \<lparr>ordinal = 739500, time_of_day = 2\<rparr>\<rparr>]\<rparr>"
    by (simp add: generate_default_start generate_with_markers m day_event_segment now_def)
      (simp add: marker_eval event_eval)
  from end_date_is_start_date[OF g] g show ?thesis by simp
qed

text \<open>
  C8 (as amended). The generator always terminates. It raises before the serialiser is
  reached exactly when some marker of the text is out of range: the exception is that of
  the first such marker, ValueError when its numeral exceeds the digit limit and
  OverflowError otherwise. When every marker is in range, in particular for every text
  without markers, the empty text included, it builds the calendar and returns what
  \<open>to_ical()\<close> gives for it: a document, unless the serialiser itself raises. So it
  returns a document exactly when every marker is in range and the serialiser accepts
  the calendar built. A missing start date is the clock's reading at the call.
\<close>

theorem returns_iff_in_range:
  "generate_ics_bytes to_ical lim clk text start =
     (case find (\<lambda>m. \<not> in_range lim (start_or_today clk start) m) (markers text) of
        Some m \<Rightarrow> Inl (range_error lim m)
      | None \<Rightarrow> to_ical (built_calendar clk text start))
   \<and> ((\<exists>cal. generate_ics_content lim clk text start = Inr cal) \<longleftrightarrow>
        list_all (in_range lim (start_or_today clk start)) (markers text))
   \<and> ((\<exists>doc. generate_ics_bytes to_ical lim clk text start = Inr doc) \<longleftrightarrow>
        list_all (in_range lim (start_or_today clk start)) (markers text)
        \<and> (\<exists>doc. to_ical (built_calendar clk text start) = Inr doc))
   \<and> (markers text = [] \<longrightarrow>
        generate_ics_bytes to_ical lim clk text start = to_ical (built_calendar clk text start))
   \<and> generate_ics_bytes to_ical lim clk text None =
       generate_ics_bytes to_ical lim (\<lambda>i. clk (Suc i)) text (Some (clk 0))"
proof -
  let ?bad = "find (\<lambda>m. \<not> in_range lim (start_or_today clk start) m) (markers text)"
  have g: "generate_ics_content lim clk text start =
      (case ?bad of None \<Rightarrow> Inr (built_calendar clk text start)
       | Some m \<Rightarrow> Inl (range_error lim m))"
    by (rule generate_find)
  have n: "?bad = None \<longleftrightarrow> list_all (in_range lim (start_or_today clk start)) (markers text)"
    by (rule find_None_list_all)
  have c1: "generate_ics_bytes to_ical lim clk text start =
     (case ?bad of Some m \<Rightarrow> Inl (range_error lim m)
      | None \<Rightarrow> to_ical (built_calendar clk text start))"
    unfolding generate_ics_bytes_def g by (simp split: option.splits)
  have c2: "(\<exists>cal. generate_ics_content lim clk text start = Inr cal) \<longleftrightarrow>
        list_all (in_range lim (start_or_today clk start)) (markers text)"
    unfolding g n[symmetric] by (simp split: option.splits)
  have c3: "(\<exists>doc. generate_ics_bytes to_ical lim clk text start = Inr doc) \<longleftrightarrow>
        list_all (in_range lim (start_or_today clk start)) (markers text)
        \<and> (\<exists>doc. to_ical (built_calendar clk text start) = Inr doc)"
    unfolding c1 n[symmetric] by (simp split: option.splits)
  have c4: "markers text = [] \<longrightarrow>
        generate_ics_bytes to_ical lim clk text start = to_ical (built_calendar clk text start)"
    unfolding c1 by simp
  have c5: "generate_ics_bytes to_ical lim clk text None =
       generate_ics_bytes to_ical lim (\<lambda>i. clk (Suc i)) text (Some (clk 0))"
    by (simp add: generate_ics_bytes_def generate_default_start)
  show ?thesis
    by (intro conjI) (fact c1, fact c2, fact c3, fact c4, fact c5)
qed

theorem returns_iff_in_range_witness:
  "(\<exists>doc. generate_ics_bytes list_summaries 0 ticking [] None = Inr doc)
   \<and> generate_ics_bytes list_summaries 4300 ticking
        ''Day 31: Fly home.\<newline>'' (Some june_1_2024) = Inr [''Day 31 Itinerary'']
   \<and> generate_ics_bytes refuse_encoding 0 ticking
        ''Day: none. Day 2'' None = Inl UnicodeEncodeError"
proof -
  let ?ser = list_summaries
  let ?fail = refuse_encoding
  have m0: "markers [] = []" and m1: "markers ''Day: none. Day 2'' = []"
    and m2: "markers ''Day 31: Fly home.\<newline>'' = [''Day 31: Fly home.\<newline>'']"
    by (simp_all add: marker_eval)
  have ok: "list_all (in_range 4300 (start_or_today ticking (Some june_1_2024)))
      (markers ''Day 31: Fly home.\<newline>'')"
    unfolding m2 by (simp add: marker_eval start_or_today_def event_eval)
  have a: "\<exists>doc. generate_ics_bytes ?ser 0 ticking [] None = Inr doc"
    using returns_iff_in_range[of ?ser 0 ticking "[]" None] m0
    by (simp add: list_summaries_def)
  have "find (\<lambda>m. \<not> in_range 4300 (start_or_today ticking (Some june_1_2024)) m)
      (markers ''Day 31: Fly home.\<newline>'') = None"
    using ok by (simp add: find_None_list_all)
  with returns_iff_in_range[of ?ser 4300 ticking "''Day 31: Fly home.\<newline>''" "Some june_1_2024"]
  have "generate_ics_bytes ?ser 4300 ticking ''Day 31: Fly home.\<newline>'' (Some june_1_2024)
      = ?ser (built_calendar ticking ''Day 31: Fly home.\<newline>'' (Some june_1_2024))"
    by simp
  then have b: "generate_ics_bytes ?ser 4300 ticking ''Day 31: Fly home.\<newline>'' (Some june_1_2024)
      = Inr [''Day 31 Itinerary'']"
    by (simp add: built_calendar_def m2 start_or_today_def list_summaries_def)
      (simp add: marker_eval event_eval)
  have c: "generate_ics_bytes ?fail 0 ticking ''Day: none. Day 2'' None = Inl UnicodeEncodeError"
    using returns_iff_in_range[of ?fail 0 ticking "''Day: none. Day 2''" None] m1
    by (simp add: refuse_encoding_def)
  from a b c show ?thesis by blast
qed

text \<open>
  The claim as stated has the generator return for every text. A day number of ten
  digits is more than \<open>timedelta\<close> accepts: the call raises before any serialiser is
  reached.
\<close>

theorem returns_iff_in_range_counterexample:
  "generate_ics_content 0 ticking ''Day 1: Arrive.\<newline>Day 9999999999: Leave.'' (Some june_1_2024)
     = Inl OverflowError
   \<and> generate_ics_bytes list_summaries 0 ticking ''Day 1: Arrive.\<newline>Day 9999999999: Leave.''
       (Some june_1_2024) = Inl OverflowError"
proof -
  have m: "markers ''Day 1: Arrive.\<newline>Day 9999999999: Leave.''
      = [''Day 1: Arrive.\<newline>Day 9999999999: Leave.'', ''Day 9999999999: Leave.'']"
    by (simp add: marker_eval)
  have "generate_ics_content 0 ticking ''Day 1: Arrive.\<newline>Day 9999999999: Leave.''
      (Some june_1_2024) = Inl OverflowError"
    by (simp add: generate_with_markers m day_event_segment now_def)
      (simp add: marker_eval event_eval)
  then show ?thesis by (simp add: generate_ics_bytes_def)
qed

text \<open>
  C9. Two calls with the same text and the same start date, at any two states of the
  clock, end alike: either both raise the same exception, or both return calendars that
  agree in the product identifier, the version and, event by event, in the summary, the
  description, the start date and the end date. Only the time stamps can differ.
\<close>

theorem same_events_but_stamps:
  "outcome (generate_ics_content lim clk1 text (Some start))
     = outcome (generate_ics_content lim clk2 text (Some start))"
proof (cases "markers text = []")
  case True
  then show ?thesis
    by (simp add: generate_without_markers outcome_def calendar_of_def unstamped_def)
next
  case False
  from day_events_unstamped[of lim start clk1 "map segment (markers text)" clk2] False
  show ?thesis
    by (auto simp: generate_with_markers outcome_def calendar_of_def split: sum.splits)
qed

text \<open>
  C10. When the text has a marker, what stands before the first marker is dropped: with
  \<open>rest\<close> the text from the first marker on and \<open>before\<close> the text in front of it (so no
  marker starts inside \<open>before\<close>), the generator gives for the whole text exactly what it
  gives for \<open>rest\<close> alone, calendar or exception. So nothing of \<open>before\<close> reaches any
  description or any other part of the result.
\<close>

theorem text_before_first_marker_is_dropped:
  assumes "is_marker rest" and "clear before rest"
  shows "generate_ics_content lim clk (before @ rest) start = generate_ics_content lim clk rest start
     \<and> findall dotall day_pattern (before @ rest) = findall dotall day_pattern rest
     \<and> markers (before @ rest) = markers rest \<and> markers rest \<noteq> []"
proof -
  have m: "markers (before @ rest) = markers rest"
    using assms(2) by (rule markers_clear)
  have ne: "markers rest \<noteq> []"
    using assms(1) by (cases rest) (simp_all add: markers_def)
  have f: "findall dotall day_pattern (before @ rest) = findall dotall day_pattern rest"
    by (simp add: dotall_def findall_day_pattern m[unfolded markers_def])
  have "generate_ics_content lim c (before @ rest) (Some s) = generate_ics_content lim c rest (Some s)"
    for c s
    using ne m by (simp add: generate_with_markers)
  then have "generate_ics_content lim clk (before @ rest) start = generate_ics_content lim clk rest start"
    by (cases start) (simp_all add: generate_default_start)
  with f m ne show ?thesis by simp
qed

text \<open>
  A heading in front of the first marker; the words \<open>Day County\<close> and \<open>Days 1-2\<close> in it are
  no markers.
\<close>

theorem text_before_first_marker_is_dropped_witness:
  "is_marker ''Day 1: Arrive.'' \<and> clear ''Your trip to Day County, Days 1-2:\<newline>'' ''Day 1: Arrive.''
   \<and> generate_ics_content 0 ticking ''Your trip to Day County, Days 1-2:\<newline>Day 1: Arrive.''
        (Some june_1_2024)
      = generate_ics_content 0 ticking ''Day 1: Arrive.'' (Some june_1_2024)
   \<and> generate_ics_content 0 ticking ''Day 1: Arrive.'' (Some june_1_2024)
      = Inr \<lparr>prodid = ''-//AI Travel Planner//github.com//'', version = ''2.0'',
           components =
             [\<lparr>summary = ''Day 1 Itinerary'', description = ''Arrive.'',
               dtstart = 739038, dtend = 739038,
               dtstamp = \<lparr>ordinal = 739500, time_of_day = 0\<rparr>\<rparr>]\<rparr>"
proof -
  have a: "is_marker ''Day 1: Arrive.''"
    by (simp add: marker_eval)
  have b: "clear ''Your trip to Day County, Days 1-2:\<newline>'' ''Day 1: Arrive.''"
    by (simp add: clear_Cons marker_eval)
  have m: "markers ''Day 1: Arrive.'' = [''Day 1: Arrive.'']"
    by (simp add: marker_eval)
  have g: "generate_ics_content 0 ticking ''Day 1: Arrive.'' (Some june_1_2024)
      = Inr \<lparr>prodid = ''-//AI Travel Planner//github.com//'', version = ''2.0'',
           components =
             [\<lparr>summary = ''Day 1 Itinerary'', description = ''Arrive.'',
               dtstart = 739038, dtend = 739038,
               dtstamp = \<lparr>ordinal = 739500, time_of_day = 0\<rparr>\<rparr>]\<rparr>"
    by (simp add: generate_with_markers m day_event_segment now_def)
      (simp add: marker_eval event_eval)
  from text_before_first_marker_is_dropped[OF a b, of 0 ticking "Some june_1_2024"] a b g
  show ?thesis by simp
qed

end
